theory Spec2Isabelle
  imports Main "HOL-Library.Sublist"
begin

section \<open>Text\<close>

text \<open>
  The script \<^verbatim>\<open>fix_vite_compat.py\<close> works on Python \<^verbatim>\<open>str\<close> values: sequences of
  Unicode code points, whose \<^verbatim>\<open>len\<close> counts code points. A text is modelled as
  the list of its code points, so every statement below covers every text, not
  only ASCII. \<open>lit\<close> embeds an ASCII literal.
\<close>

type_synonym pystr = "nat list"

definition lit :: "string \<Rightarrow> pystr" where
  "lit s = map of_char s"

abbreviation STAR :: nat where "STAR \<equiv> 42"
abbreviation SLASH :: nat where "SLASH \<equiv> 47"
abbreviation LT :: nat where "LT \<equiv> 60"
abbreviation GT :: nat where "GT \<equiv> 62"

text \<open>
  \<^verbatim>\<open>\s\<close> in a \<^verbatim>\<open>str\<close> pattern is Unicode white space: the characters for which
  \<^verbatim>\<open>str.isspace\<close> holds.
\<close>

definition is_space :: "nat \<Rightarrow> bool" where
  "is_space c \<longleftrightarrow>
     (9 \<le> c \<and> c \<le> 13) \<or> (28 \<le> c \<and> c \<le> 32) \<or> c = 133 \<or> c = 160 \<or> c = 5760 \<or>
     (8192 \<le> c \<and> c \<le> 8202) \<or> c = 8232 \<or> c = 8233 \<or> c = 8239 \<or> c = 8287 \<or> c = 12288"

section \<open>The pattern of a documentation comment\<close>

text \<open>
  \<^verbatim>\<open>r'/\*\*.*?\*/'\<close> with \<^verbatim>\<open>re.DOTALL\<close>. The lazy \<^verbatim>\<open>.*?\<close> followed by the
  literal \<^verbatim>\<open>*/\<close> stops at the first \<^verbatim>\<open>*/\<close>: \<open>find_close s\<close> splits \<open>s\<close> there,
  giving the text before it and the text after it.
\<close>

fun find_close :: "pystr \<Rightarrow> (pystr \<times> pystr) option" where
  "find_close (a # b # cs) =
     (if a = STAR \<and> b = SLASH then Some ([], cs)
      else (case find_close (b # cs) of
              None \<Rightarrow> None
            | Some (body, rest) \<Rightarrow> Some (a # body, rest)))"
| "find_close _ = None"

text \<open>
  \<open>match_comment s\<close> is \<^verbatim>\<open>pattern.match\<close> at the start of \<open>s\<close>: the matched text
  (\<^verbatim>\<open>match.group(0)\<close>) and what follows it.
\<close>

fun match_comment :: "pystr \<Rightarrow> (pystr \<times> pystr) option" where
  "match_comment (a # b # c # r) =
     (if a = SLASH \<and> b = STAR \<and> c = STAR
      then (case find_close r of
              None \<Rightarrow> None
            | Some (body, rest) \<Rightarrow> Some ([SLASH, STAR, STAR] @ body @ [STAR, SLASH], rest))
      else None)"
| "match_comment _ = None"

section \<open>The pattern of an HTML example\<close>

text \<open>
  \<^verbatim>\<open>r'\*\s*<[^>]+>.*?<\/[^>]+>'\<close> with \<^verbatim>\<open>re.DOTALL\<close>, piece by piece.

  \<open>tag_tail\<close> is \<^verbatim>\<open>[^>]+>\<close>: the greedy class runs to the first \<^verbatim>\<open>>\<close>, which
  must exist and must not come first. A shorter run is followed by a character
  that is not \<^verbatim>\<open>>\<close>, so backtracking finds nothing else.
\<close>

definition tag_tail :: "pystr \<Rightarrow> (pystr \<times> pystr) option" where
  "tag_tail s =
     (case dropWhile (\<lambda>c. c \<noteq> GT) s of
        [] \<Rightarrow> None
      | g # r \<Rightarrow>
          if takeWhile (\<lambda>c. c \<noteq> GT) s = [] then None
          else Some (takeWhile (\<lambda>c. c \<noteq> GT) s @ [g], r))"

text \<open>\<open>close_tag\<close> is \<^verbatim>\<open><\/[^>]+>\<close> at the start of the text.\<close>

fun close_tag :: "pystr \<Rightarrow> (pystr \<times> pystr) option" where
  "close_tag (a # b # r) =
     (if a = LT \<and> b = SLASH
      then (case tag_tail r of
              None \<Rightarrow> None
            | Some (t, rest) \<Rightarrow> Some (a # b # t, rest))
      else None)"
| "close_tag _ = None"

text \<open>
  \<open>lazy_close_tag\<close> is \<^verbatim>\<open>.*?<\/[^>]+>\<close>: the lazy \<^verbatim>\<open>.*?\<close> takes one more
  character (any character, line breaks too) each time the closing tag does not
  match where it stands.
\<close>

fun lazy_close_tag :: "pystr \<Rightarrow> (pystr \<times> pystr) option" where
  "lazy_close_tag [] = None"
| "lazy_close_tag (c # cs) =
     (case close_tag (c # cs) of
        Some (t, rest) \<Rightarrow> Some (t, rest)
      | None \<Rightarrow>
          (case lazy_close_tag cs of
             None \<Rightarrow> None
           | Some (m, rest) \<Rightarrow> Some (c # m, rest)))"

text \<open>
  \<open>match_html s\<close> is the whole pattern at the start of \<open>s\<close>. The greedy \<^verbatim>\<open>\s*\<close>
  takes all the white space: \<^verbatim>\<open><\<close> is not white space, so nothing shorter can be
  followed by it.
\<close>

definition match_html :: "pystr \<Rightarrow> (pystr \<times> pystr) option" where
  "match_html s =
     (case s of
        [] \<Rightarrow> None
      | c # r \<Rightarrow>
          if c \<noteq> STAR then None
          else (case dropWhile is_space r of
                  [] \<Rightarrow> None
                | l # r2 \<Rightarrow>
                    if l \<noteq> LT then None
                    else (case tag_tail r2 of
                            None \<Rightarrow> None
                          | Some (t, r3) \<Rightarrow>
                              (case lazy_close_tag r3 of
                                 None \<Rightarrow> None
                               | Some (m, rest) \<Rightarrow>
                                   Some (c # takeWhile is_space r @ l # t @ m, rest)))))"

lemma find_close_split:
  "find_close s = Some (body, rest) \<Longrightarrow> s = body @ [STAR, SLASH] @ rest"
  by (induction s arbitrary: body rest rule: find_close.induct)
     (auto split: if_splits option.splits)

lemma match_comment_split:
  "match_comment s = Some (m, rest) \<Longrightarrow> s = m @ rest"
  by (cases s rule: match_comment.cases)
     (auto split: if_splits option.splits dest: find_close_split)

lemma tag_tail_split:
  "tag_tail s = Some (t, rest) \<Longrightarrow> s = t @ rest \<and> 2 \<le> length t"
proof -
  assume a: "tag_tail s = Some (t, rest)"
  have s: "s = takeWhile (\<lambda>c. c \<noteq> GT) s @ dropWhile (\<lambda>c. c \<noteq> GT) s"
    by simp
  from a obtain g where
    d: "dropWhile (\<lambda>c. c \<noteq> GT) s = g # rest" and
    t: "t = takeWhile (\<lambda>c. c \<noteq> GT) s @ [g]" and
    n: "takeWhile (\<lambda>c. c \<noteq> GT) s \<noteq> []"
    by (auto simp: tag_tail_def split: list.splits if_splits)
  from s d t have "s = t @ rest" by simp
  moreover from n t have "2 \<le> length t"
    by (cases "takeWhile (\<lambda>c. c \<noteq> GT) s") auto
  ultimately show ?thesis by simp
qed

lemma close_tag_split:
  "close_tag s = Some (t, rest) \<Longrightarrow> s = t @ rest \<and> 4 \<le> length t"
  by (cases s rule: close_tag.cases)
     (auto split: if_splits option.splits dest: tag_tail_split)

lemma lazy_close_tag_split:
  "lazy_close_tag s = Some (m, rest) \<Longrightarrow> s = m @ rest \<and> 4 \<le> length m"
proof (induction s arbitrary: m rest)
  case Nil
  then show ?case by simp
next
  case (Cons c cs)
  show ?case
  proof (cases "close_tag (c # cs)")
    case None
    with Cons.prems obtain m' where m': "lazy_close_tag cs = Some (m', rest)" "m = c # m'"
      by (auto split: option.splits)
    with Cons.IH [of m' rest] show ?thesis by simp
  next
    case (Some p)
    with Cons.prems have "close_tag (c # cs) = Some (m, rest)"
      by (cases p) simp
    then show ?thesis by (rule close_tag_split)
  qed
qed

lemma match_html_split:
  "match_html s = Some (m, rest) \<Longrightarrow> s = m @ rest \<and> 8 \<le> length m"
proof -
  assume a: "match_html s = Some (m, rest)"
  then obtain c r where s: "s = c # r" and c: "c = STAR"
    by (cases s) (auto simp: match_html_def split: if_splits)
  from a s c obtain l r2 where d: "dropWhile is_space r = l # r2" and l: "l = LT"
    by (cases "dropWhile is_space r") (auto simp: match_html_def split: if_splits)
  from a s c d l obtain t r3 where t: "tag_tail r2 = Some (t, r3)"
    by (cases "tag_tail r2") (auto simp: match_html_def)
  from a s c d l t obtain m' where
    m': "lazy_close_tag r3 = Some (m', rest)" and
    m: "m = c # takeWhile is_space r @ l # t @ m'"
    by (cases "lazy_close_tag r3") (auto simp: match_html_def)
  have "r = takeWhile is_space r @ dropWhile is_space r" by simp
  with d have r: "r = takeWhile is_space r @ l # r2" by simp
  from tag_tail_split [OF t] lazy_close_tag_split [OF m'] have
    "r2 = t @ m' @ rest" "2 \<le> length t" "4 \<le> length m'" by auto
  with s m r show ?thesis by auto
qed

lemma match_html_shorter:
  "match_html s = Some (m, rest) \<Longrightarrow> length rest < length s"
  using match_html_split [of s m rest] by auto

lemma match_comment_shorter:
  "match_comment s = Some (m, rest) \<Longrightarrow> length rest < length s"
  by (cases s rule: match_comment.cases)
     (auto split: if_splits option.splits dest: find_close_split)

section \<open>The substitutions\<close>

definition placeholder :: pystr where
  "placeholder = lit ''* [HTML example removed for Vite compatibility]''"

text \<open>
  \<^verbatim>\<open>re.sub(pattern, repl, text)\<close> scans \<open>text\<close> from left to right: where the pattern
  matches, the match is replaced and the scan goes on behind it; where it does not,
  the character is kept and the scan goes on one character further. Neither
  pattern matches the empty text.
\<close>

function sub_html :: "pystr \<Rightarrow> pystr" where
  "sub_html [] = []"
| "sub_html (c # cs) =
     (case match_html (c # cs) of
        Some (m, rest) \<Rightarrow> placeholder @ sub_html rest
      | None \<Rightarrow> c # sub_html cs)"
  by pat_completeness auto
termination
  by (relation "measure length") (auto dest: match_html_shorter)

text \<open>\<^verbatim>\<open>str.replace(old, new)\<close> for a single character \<open>old\<close>.\<close>

fun replace :: "nat \<Rightarrow> pystr \<Rightarrow> pystr \<Rightarrow> pystr" where
  "replace old new [] = []"
| "replace old new (c # cs) =
     (if c = old then new @ replace old new cs else c # replace old new cs)"

text \<open>\<^verbatim>\<open>comment.replace('<', '&lt;').replace('>', '&gt;')\<close>\<close>

definition escape :: "pystr \<Rightarrow> pystr" where
  "escape s = replace GT (lit ''&gt;'') (replace LT (lit ''&lt;'') s)"

definition process_comment :: "pystr \<Rightarrow> pystr" where
  "process_comment comment =
     (if LT \<in> set comment \<and> GT \<in> set comment
      then escape (sub_html comment)
      else comment)"

function fix_jsdoc_html :: "pystr \<Rightarrow> pystr" where
  "fix_jsdoc_html [] = []"
| "fix_jsdoc_html (c # cs) =
     (case match_comment (c # cs) of
        Some (m, rest) \<Rightarrow> process_comment m @ fix_jsdoc_html rest
      | None \<Rightarrow> c # fix_jsdoc_html cs)"
  by pat_completeness auto
termination
  by (relation "measure length") (auto dest: match_comment_shorter)


section \<open>Comment blocks of a text\<close>

text \<open>
  \<open>has_close s\<close>: the text \<open>s\<close> contains \<^verbatim>\<open>*/\<close> (see \<open>has_close_iff\<close>).
\<close>

fun has_close :: "pystr \<Rightarrow> bool" where
  "has_close (a # b # cs) = ((a = STAR \<and> b = SLASH) \<or> has_close (b # cs))"
| "has_close _ = False"


text \<open>
  The scan of \<^verbatim>\<open>re.sub\<close> over a text cuts it into pieces: the comment blocks the
  pattern matches (what \<^verbatim>\<open>re.findall\<close> lists), and the characters between them.
  \<open>segments\<close> follows the recursion of \<open>fix_jsdoc_html\<close> and keeps each piece as it
  is in the input.
\<close>

datatype piece = Outside nat | Comment pystr

function segments :: "pystr \<Rightarrow> piece list" where
  "segments [] = []"
| "segments (c # cs) =
     (case match_comment (c # cs) of
        Some (m, rest) \<Rightarrow> Comment m # segments rest
      | None \<Rightarrow> Outside c # segments cs)"
  by pat_completeness auto
termination
  by (relation "measure length") (auto dest: match_comment_shorter)

fun text_of :: "piece \<Rightarrow> pystr" where
  "text_of (Outside c) = [c]"
| "text_of (Comment m) = m"

fun sanitize_piece :: "piece \<Rightarrow> piece" where
  "sanitize_piece (Outside c) = Outside c"
| "sanitize_piece (Comment m) = Comment (process_comment m)"


fun blocks_of :: "piece list \<Rightarrow> pystr list" where
  "blocks_of [] = []"
| "blocks_of (Outside c # ps) = blocks_of ps"
| "blocks_of (Comment m # ps) = m # blocks_of ps"

fun outside_of :: "piece list \<Rightarrow> pystr" where
  "outside_of [] = []"
| "outside_of (Outside c # ps) = c # outside_of ps"
| "outside_of (Comment m # ps) = outside_of ps"

text \<open>The located comment blocks of a text, in order.\<close>

definition comments :: "pystr \<Rightarrow> pystr list" where
  "comments s = blocks_of (segments s)"


text \<open>
  What escaping makes of one character, in the words of the specification: \<^verbatim>\<open><\<close>
  becomes \<^verbatim>\<open>&lt;\<close>, \<^verbatim>\<open>>\<close> becomes \<^verbatim>\<open>&gt;\<close>, every other character stays.
\<close>

definition escaped_char :: "nat \<Rightarrow> pystr" where
  "escaped_char c = (if c = LT then lit ''&lt;'' else if c = GT then lit ''&gt;'' else [c])"

section \<open>The run over the files\<close>

text \<open>
  The script reads, rewrites and writes back each file of a fixed list, inside a
  \<^verbatim>\<open>try\<close> whose \<^verbatim>\<open>except Exception\<close> prints the error and goes on.

  What the run does, in order, is a list of events: the files it opens, and the
  \<^verbatim>\<open>print\<close> calls it makes. An event records the call, not its success.
  \<open>Printed_fixed name\<close> is the call that prints \<^verbatim>\<open>Fixed {name}\<close> (after a check
  mark) on the standard output, \<open>Printed_error name e\<close> the call that prints
  \<^verbatim>\<open>Error fixing {name}: {e}\<close> (after a cross) on the standard error,
  \<open>Printed_done\<close> the last call, \<^verbatim>\<open>All files processed!\<close> on the standard output.
\<close>

datatype 'e event =
    Opened_read pystr
  | Opened_write pystr
  | Printed_fixed pystr
  | Printed_error pystr 'e
  | Printed_done

text \<open>
  The operating system is a parameter; an exception is a value of the type \<open>'e\<close>:
  what \<^verbatim>\<open>except Exception\<close> catches.

  \<open>read_text sys fs name\<close> is
  \<^verbatim>\<open>with open(name, 'r', encoding='utf-8') as f: content = f.read()\<close>: it raises
  (\<open>Inl\<close>: no such file, no permission, not UTF-8) or gives the text; reading
  leaves the file system as it is.

  \<open>write_text sys fs name text\<close> is
  \<^verbatim>\<open>with open(name, 'w', encoding='utf-8') as f: f.write(text)\<close>: it gives the
  file system afterwards, and the exception if one was raised; the file system may
  have changed even then, since opening for writing truncates the file.

  \<open>print_line sys con ev\<close> is the \<^verbatim>\<open>print\<close> call \<open>ev\<close> on the console \<open>con\<close> (the
  standard output and the standard error): it gives the console afterwards, and
  the exception if the call raised (the stream is closed or full, or cannot encode
  the check mark). \<open>flush_ok sys con\<close> says whether the interpreter can flush the
  standard streams when the script ends. The console is not one of the files.
\<close>

record ('fs, 'con, 'e) os =
  read_text :: "'fs \<Rightarrow> pystr \<Rightarrow> 'e + pystr"
  write_text :: "'fs \<Rightarrow> pystr \<Rightarrow> pystr \<Rightarrow> 'fs \<times> 'e option"
  print_line :: "'con \<Rightarrow> 'e event \<Rightarrow> 'con \<times> 'e option"
  flush_ok :: "'con \<Rightarrow> bool"

record ('fs, 'con, 'e) world =
  files_on_disk :: 'fs
  console :: 'con
  trace :: "'e event list"

text \<open>A \<^verbatim>\<open>print\<close> call: the world afterwards, and the exception it raised, if any.\<close>

definition print_call ::
  "('fs, 'con, 'e) os \<Rightarrow> 'e event \<Rightarrow> ('fs, 'con, 'e) world \<Rightarrow> ('fs, 'con, 'e) world \<times> 'e option" where
  "print_call sys ev w =
     (let (con', raised) = print_line sys (console w) ev
      in (w\<lparr>console := con', trace := trace w @ [ev]\<rparr>, raised))"

text \<open>
  The body of the \<^verbatim>\<open>try\<close>: the world afterwards, and the exception that left it,
  if any. The \<^verbatim>\<open>print\<close> of the \<^verbatim>\<open>Fixed\<close> line is inside the \<^verbatim>\<open>try\<close>: when it
  raises, the file is written all the same and the handler runs.
\<close>

definition try_body ::
  "('fs, 'con, 'e) os \<Rightarrow> pystr \<Rightarrow> ('fs, 'con, 'e) world \<Rightarrow> ('fs, 'con, 'e) world \<times> 'e option" where
  "try_body sys filename w =
     (case read_text sys (files_on_disk w) filename of
        Inl e \<Rightarrow> (w\<lparr>trace := trace w @ [Opened_read filename]\<rparr>, Some e)
      | Inr content \<Rightarrow>
          (let fixed_content = fix_jsdoc_html content;
               (fs', raised) = write_text sys (files_on_disk w) filename fixed_content;
               w' = w\<lparr>files_on_disk := fs',
                      trace := trace w @ [Opened_read filename, Opened_write filename]\<rparr>
           in case raised of
                Some e \<Rightarrow> (w', Some e)
              | None \<Rightarrow> print_call sys (Printed_fixed filename) w'))"

text \<open>
  One turn of the loop: the \<^verbatim>\<open>try\<close> with its \<^verbatim>\<open>except Exception as e\<close>. The
  handler's \<^verbatim>\<open>print\<close> is outside any \<^verbatim>\<open>try\<close>: an exception it raises is not
  caught, and is the second component of the result.
\<close>

definition process_file ::
  "('fs, 'con, 'e) os \<Rightarrow> pystr \<Rightarrow> ('fs, 'con, 'e) world \<Rightarrow> ('fs, 'con, 'e) world \<times> 'e option" where
  "process_file sys filename w =
     (case try_body sys filename w of
        (w', None) \<Rightarrow> (w', None)
      | (w', Some e) \<Rightarrow> print_call sys (Printed_error filename e) w')"








fun written :: "'e event list \<Rightarrow> pystr list" where
  "written [] = []"
| "written (Opened_write f # es) = f # written es"
| "written (e # es) = written es"

text \<open>
  Two systems for examples. The file system is a map from names to texts: reading
  a name that is not there raises, writing never does. In \<open>simple_os\<close> the
  console takes every line. In \<open>stderr_full_os\<close> the standard error is full (as
  with \<^verbatim>\<open>2>/dev/full\<close>): printing an error line raises, and the streams cannot
  be flushed at the end.
\<close>

datatype io_error = FileNotFoundError pystr | No_space_left

definition simple_os :: "(pystr \<rightharpoonup> pystr, unit, io_error) os" where
  "simple_os =
     \<lparr>read_text = (\<lambda>fs name. case fs name of None \<Rightarrow> Inl (FileNotFoundError name) | Some t \<Rightarrow> Inr t),
      write_text = (\<lambda>fs name t. (fs(name \<mapsto> t), None)),
      print_line = (\<lambda>con ev. (con, None)),
      flush_ok = (\<lambda>con. True)\<rparr>"


definition example_disk :: "pystr \<rightharpoonup> pystr" where
  "example_disk =
     [lit ''components.js'' \<mapsto> lit ''/** <b>x</b> */ f()'',
      lit ''theme-toggle.js'' \<mapsto> lit ''g()'']"

definition example_world :: "(pystr \<rightharpoonup> pystr, unit, io_error) world" where
  "example_world = \<lparr>files_on_disk = example_disk, console = (), trace = []\<rparr>"

section \<open>The HTML example as a set of texts\<close>

text \<open>
  The texts that \<^verbatim>\<open>r'\*\s*<[^>]+>.*?<\/[^>]+>'\<close> (with \<^verbatim>\<open>re.DOTALL\<close>) can match, said
  without an algorithm: a \<^verbatim>\<open>*\<close>, white space \<open>ws\<close>, an opening tag \<^verbatim>\<open><\<close> \<open>a\<close> \<^verbatim>\<open>>\<close>
  with \<open>a\<close> not empty and without \<^verbatim>\<open>>\<close>, any text \<open>mid\<close>, and a closing tag
  \<^verbatim>\<open></\<close> \<open>b\<close> \<^verbatim>\<open>>\<close> with \<open>b\<close> not empty and without \<^verbatim>\<open>>\<close>.
\<close>

definition html_span :: "pystr \<Rightarrow> bool" where
  "html_span m \<longleftrightarrow>
     (\<exists>ws a mid b.
        m = [STAR] @ ws @ [LT] @ a @ [GT] @ mid @ [LT, SLASH] @ b @ [GT] \<and>
        (\<forall>c \<in> set ws. is_space c) \<and> a \<noteq> [] \<and> GT \<notin> set a \<and> b \<noteq> [] \<and> GT \<notin> set b)"

text \<open>\<open>smallest_span m s\<close>: \<open>m\<close> is the shortest such text that \<open>s\<close> begins with.\<close>

definition smallest_span :: "pystr \<Rightarrow> pystr \<Rightarrow> bool" where
  "smallest_span m s \<longleftrightarrow>
     prefix m s \<and> html_span m \<and> (\<forall>m'. prefix m' s \<and> html_span m' \<longrightarrow> length m \<le> length m')"

text \<open>
  \<open>html_replaced s t\<close>: \<open>t\<close> is \<open>s\<close> with every span replaced by the placeholder,
  from left to right and without overlap: where no span begins, the character is
  kept; where one begins, the smallest is replaced and the scan goes on behind it.
\<close>

inductive html_replaced :: "pystr \<Rightarrow> pystr \<Rightarrow> bool" where
  at_end: "html_replaced [] []"
| keep: "\<not> (\<exists>m. prefix m (c # cs) \<and> html_span m) \<Longrightarrow> html_replaced cs t \<Longrightarrow>
         html_replaced (c # cs) (c # t)"
| span: "smallest_span m (m @ rest) \<Longrightarrow> html_replaced rest t \<Longrightarrow>
         html_replaced (m @ rest) (placeholder @ t)"

section \<open>The span as the specification words it\<close>

text \<open>
  The specification describes the span as: \<^verbatim>\<open>*\<close>, then zero or more white space
  characters, then \<^verbatim>\<open><\<close>, then any characters (line breaks too) up to and
  including a closing tag of the form \<^verbatim>\<open></...>\<close>; the smallest such span, all
  occurrences without overlap. \<open>spec_match_html\<close>, \<open>spec_sub_html\<close> and
  \<open>spec_process_comment\<close> follow these words, not the code: they ask for no
  opening tag.
\<close>

definition spec_match_html :: "pystr \<Rightarrow> (pystr \<times> pystr) option" where
  "spec_match_html s =
     (case s of
        [] \<Rightarrow> None
      | c # r \<Rightarrow>
          if c \<noteq> STAR then None
          else (case dropWhile is_space r of
                  [] \<Rightarrow> None
                | l # r2 \<Rightarrow>
                    if l \<noteq> LT then None
                    else (case lazy_close_tag r2 of
                            None \<Rightarrow> None
                          | Some (m, rest) \<Rightarrow>
                              Some (c # takeWhile is_space r @ l # m, rest))))"

lemma spec_match_html_shorter:
  "spec_match_html s = Some (m, rest) \<Longrightarrow> length rest < length s"
proof -
  assume a: "spec_match_html s = Some (m, rest)"
  then obtain c r l r2 m' where s: "s = c # r" and d: "dropWhile is_space r = l # r2"
    and "lazy_close_tag r2 = Some (m', rest)"
    by (auto simp: spec_match_html_def split: list.splits if_splits option.splits)
  then have "length rest \<le> length r2" using lazy_close_tag_split [of r2 m' rest] by auto
  also have "\<dots> \<le> length (dropWhile is_space r)" by (simp add: d)
  also have "\<dots> \<le> length r" by (rule length_dropWhile_le)
  finally show ?thesis using s by simp
qed

function spec_sub_html :: "pystr \<Rightarrow> pystr" where
  "spec_sub_html [] = []"
| "spec_sub_html (c # cs) =
     (case spec_match_html (c # cs) of
        Some (m, rest) \<Rightarrow> placeholder @ spec_sub_html rest
      | None \<Rightarrow> c # spec_sub_html cs)"
  by pat_completeness auto
termination
  by (relation "measure length") (auto dest: spec_match_html_shorter)

definition spec_process_comment :: "pystr \<Rightarrow> pystr" where
  "spec_process_comment comment =
     (if LT \<in> set comment \<and> GT \<in> set comment
      then escape (spec_sub_html comment)
      else comment)"

section \<open>Basic facts\<close>

lemma lit_lt: "lit ''&lt;'' = [38, 108, 116, 59]" by (simp add: lit_def)
lemma lit_gt: "lit ''&gt;'' = [38, 103, 116, 59]" by (simp add: lit_def)
lemma placeholder_eq: "placeholder = [42, 32, 91, 72, 84, 77, 76, 32, 101, 120, 97, 109, 112, 108, 101, 32, 114, 101, 109, 111, 118, 101, 100, 32, 102, 111, 114, 32, 86, 105, 116, 101, 32, 99, 111, 109, 112, 97, 116, 105, 98, 105, 108, 105, 116, 121, 93]"
  by (simp add: placeholder_def lit_def)

lemma replace_append: "replace old new (xs @ ys) = replace old new xs @ replace old new ys"
  by (induction xs) auto

lemma replace_id: "old \<notin> set s \<Longrightarrow> replace old new s = s"
  by (induction s) auto

lemma set_replace: "set (replace old new s) \<subseteq> (set s - {old}) \<union> set new"
  by (induction s) auto

lemma escape_append: "escape (xs @ ys) = escape xs @ escape ys"
  by (simp add: escape_def replace_append)

lemma escape_id: "LT \<notin> set s \<Longrightarrow> GT \<notin> set s \<Longrightarrow> escape s = s"
  by (simp add: escape_def replace_id)

lemma escape_no_brackets: "LT \<notin> set (escape s) \<and> GT \<notin> set (escape s)"
proof -
  have 1: "LT \<notin> set (replace LT (lit ''&lt;'') s)"
    using set_replace [of LT "lit ''&lt;''" s] by (auto simp: lit_lt)
  have 2: "LT \<notin> set (replace GT (lit ''&gt;'') (replace LT (lit ''&lt;'') s))"
    using set_replace [of GT "lit ''&gt;''" "replace LT (lit ''&lt;'') s"] 1 by (auto simp: lit_gt)
  have 3: "GT \<notin> set (replace GT (lit ''&gt;'') (replace LT (lit ''&lt;'') s))"
    using set_replace [of GT "lit ''&gt;''" "replace LT (lit ''&lt;'') s"] by (auto simp: lit_gt)
  from 2 3 show ?thesis by (simp add: escape_def)
qed

lemma escape_Cons: "escape (c # cs) = (if c = LT then lit ''&lt;'' else if c = GT then lit ''&gt;'' else [c]) @ escape cs"
  by (simp add: escape_def replace_append lit_lt lit_gt)

lemma escape_placeholder: "escape placeholder = placeholder"
  by (rule escape_id) (simp_all add: placeholder_eq)

lemma length_placeholder: "length placeholder = 47"
  by (simp add: placeholder_eq)

lemma length_escape_sub_html: "8 * length (escape (sub_html s)) \<le> 47 * length s"
proof (induction s rule: sub_html.induct)
  case 1
  then show ?case by (simp add: escape_def)
next
  case (2 c cs)
  show ?case
  proof (cases "match_html (c # cs)")
    case None
    with 2 have "8 * length (escape (sub_html cs)) \<le> 47 * length cs" by simp
    moreover have "length (escape (sub_html (c # cs))) \<le> 4 + length (escape (sub_html cs))"
      using None by (simp add: escape_Cons lit_lt lit_gt)
    ultimately show ?thesis by simp
  next
    case (Some p)
    obtain m rest where p: "p = (m, rest)" by (cases p)
    from Some p 2 have ih: "8 * length (escape (sub_html rest)) \<le> 47 * length rest" by simp
    from Some p have sp: "c # cs = m @ rest" "8 \<le> length m"
      using match_html_split [of "c # cs" m rest] by auto
    then have "length (c # cs) = length m + length rest" by (metis length_append)
    moreover have "length (escape (sub_html (c # cs))) = 47 + length (escape (sub_html rest))"
      using Some p by (simp add: escape_append escape_placeholder length_placeholder)
    ultimately show ?thesis using ih sp(2) by simp
  qed
qed

lemma length_process_comment: "8 * length (process_comment m) \<le> 47 * length m"
  using length_escape_sub_html [of m] by (simp add: process_comment_def)

lemma length_fix: "8 * length (fix_jsdoc_html s) \<le> 47 * length s"
proof (induction s rule: fix_jsdoc_html.induct)
  case 1
  then show ?case by simp
next
  case (2 c cs)
  show ?case
  proof (cases "match_comment (c # cs)")
    case None
    with 2 show ?thesis by simp
  next
    case (Some p)
    obtain m rest where p: "p = (m, rest)" by (cases p)
    from Some p 2 have ih: "8 * length (fix_jsdoc_html rest) \<le> 47 * length rest" by simp
    from Some p have "c # cs = m @ rest" by (simp add: match_comment_split)
    then have "length (c # cs) = length m + length rest" by (metis length_append)
    then show ?thesis using ih length_process_comment [of m] Some p by simp
  qed
qed

section \<open>Facts about the patterns\<close>

lemma find_close_None: "find_close s = None \<longleftrightarrow> \<not> has_close s"
  by (induction s rule: find_close.induct) (auto split: option.splits)

lemma has_close_append:
  "has_close (xs @ ys) \<longleftrightarrow>
     has_close xs \<or> has_close ys \<or> (xs \<noteq> [] \<and> ys \<noteq> [] \<and> last xs = STAR \<and> hd ys = SLASH)"
proof (induction xs rule: has_close.induct)
  case (1 a b cs)
  then show ?case by auto
next
  case "2_1"
  then show ?case by simp
next
  case "2_2"
  then show ?case by (cases ys) auto
qed

lemma has_close_iff: "has_close s \<longleftrightarrow> (\<exists>u v. s = u @ [STAR, SLASH] @ v)"
proof
  assume "has_close s"
  then obtain p where "find_close s = Some p" using find_close_None [of s] by auto
  then show "\<exists>u v. s = u @ [STAR, SLASH] @ v"
    using find_close_split [of s "fst p" "snd p"] by auto
next
  assume "\<exists>u v. s = u @ [STAR, SLASH] @ v"
  then show "has_close s" by (auto simp: has_close_append)
qed

lemma find_close_first:
  "\<not> has_close (body @ [STAR]) \<Longrightarrow> find_close (body @ STAR # SLASH # rest) = Some (body, rest)"
proof (induction body)
  case Nil
  then show ?case by simp
next
  case (Cons a body)
  show ?case
  proof (cases body)
    case Nil
    with Cons.prems show ?thesis by auto
  next
    case (Cons b bs)
    with Cons.prems Cons.IH show ?thesis by auto
  qed
qed

lemma find_close_Some_no_close:
  "find_close s = Some (body, rest) \<Longrightarrow> \<not> has_close (body @ [STAR])"
proof (induction s arbitrary: body rest rule: find_close.induct)
  case (1 a b cs)
  show ?case
  proof (cases "a = STAR \<and> b = SLASH")
    case True
    with 1 show ?thesis by simp
  next
    case False
    with "1.prems" obtain body' where
      b: "find_close (b # cs) = Some (body', rest)" "body = a # body'"
      by (auto split: option.splits)
    with 1 False have ih: "\<not> has_close (body' @ [STAR])" by simp
    from b(1) have "b # cs = body' @ [STAR, SLASH] @ rest" by (rule find_close_split)
    then have "hd (body' @ [STAR]) = b" by (cases body') auto
    with ih b False show ?thesis by (cases "body' @ [STAR]") auto
  qed
qed simp_all

lemma find_close_Some_iff:
  "find_close s = Some (body, rest) \<longleftrightarrow> s = body @ [STAR, SLASH] @ rest \<and> \<not> has_close (body @ [STAR])"
  using find_close_split find_close_Some_no_close find_close_first by fastforce

lemma tag_tail_None: "GT \<notin> set s \<Longrightarrow> tag_tail s = None"
proof -
  assume "GT \<notin> set s"
  then have d: "dropWhile (\<lambda>c. c \<noteq> GT) s = []" by auto
  show ?thesis unfolding tag_tail_def d by simp
qed

lemma tag_tail_append:
  assumes "GT \<notin> set v"
  shows "tag_tail (u @ v) = (case tag_tail u of None \<Rightarrow> None | Some (t, r) \<Rightarrow> Some (t, r @ v))"
proof (cases "GT \<in> set u")
  case True
  then have "takeWhile (\<lambda>c. c \<noteq> GT) (u @ v) = takeWhile (\<lambda>c. c \<noteq> GT) u"
    and "dropWhile (\<lambda>c. c \<noteq> GT) (u @ v) = dropWhile (\<lambda>c. c \<noteq> GT) u @ v"
    by (auto intro: takeWhile_append1 dropWhile_append1)
  moreover from True have "dropWhile (\<lambda>c. c \<noteq> GT) u \<noteq> []" by auto
  ultimately show ?thesis
    by (cases "dropWhile (\<lambda>c. c \<noteq> GT) u") (auto simp: tag_tail_def)
next
  case False
  with assms have "GT \<notin> set (u @ v)" by simp
  then have "tag_tail (u @ v) = None" by (rule tag_tail_None)
  moreover from False have "tag_tail u = None" by (rule tag_tail_None)
  ultimately show ?thesis by simp
qed

lemma close_tag_None: "GT \<notin> set s \<Longrightarrow> close_tag s = None"
  by (cases s rule: close_tag.cases) (auto simp: tag_tail_None)

lemma close_tag_append:
  assumes "GT \<notin> set v"
  shows "close_tag (u @ v) = (case close_tag u of None \<Rightarrow> None | Some (t, r) \<Rightarrow> Some (t, r @ v))"
proof (cases u rule: close_tag.cases)
  case (1 a b r)
  then show ?thesis using tag_tail_append [OF assms, of r]
    by (auto split: option.splits)
next
  case "2_1"
  then show ?thesis using assms by (simp add: close_tag_None)
next
  case "2_2"
  show ?thesis
  proof (cases v)
    case Nil
    with "2_2" show ?thesis by simp
  next
    case (Cons b w)
    with assms have "tag_tail w = None" by (simp add: tag_tail_None)
    with "2_2" Cons show ?thesis by simp
  qed
qed

lemma lazy_close_tag_None: "GT \<notin> set s \<Longrightarrow> lazy_close_tag s = None"
  by (induction s) (auto simp: close_tag_None)

lemma lazy_close_tag_append:
  assumes "GT \<notin> set v"
  shows "lazy_close_tag (u @ v) = (case lazy_close_tag u of None \<Rightarrow> None | Some (m, r) \<Rightarrow> Some (m, r @ v))"
proof (induction u)
  case Nil
  then show ?case using assms by (simp add: lazy_close_tag_None)
next
  case (Cons c cs)
  then show ?case using close_tag_append [OF assms, of "c # cs"]
    by (auto split: option.splits)
qed

lemma match_html_None: "GT \<notin> set s \<Longrightarrow> match_html s = None"
proof -
  assume a: "GT \<notin> set s"
  have "\<And>r l r2. s = STAR # r \<Longrightarrow> dropWhile is_space r = l # r2 \<Longrightarrow> tag_tail r2 = None"
  proof -
    fix r l r2 assume "s = STAR # r" "dropWhile is_space r = l # r2"
    then have "set r2 \<subseteq> set s" using set_dropWhileD [of _ is_space r] by auto
    with a show "tag_tail r2 = None" by (auto intro: tag_tail_None)
  qed
  then show ?thesis by (auto simp: match_html_def split: list.splits)
qed

lemma match_html_append:
  assumes "GT \<notin> set v"
  shows "match_html (u @ v) = (case match_html u of None \<Rightarrow> None | Some (m, r) \<Rightarrow> Some (m, r @ v))"
proof (cases u)
  case Nil
  then show ?thesis using assms by (simp add: match_html_None)
next
  case (Cons c r)
  show ?thesis
  proof (cases "\<forall>x\<in>set r. is_space x")
    case True
    then have d: "dropWhile is_space r = []" "dropWhile is_space (r @ v) = dropWhile is_space v"
      by auto
    have "\<And>l r2. dropWhile is_space v = l # r2 \<Longrightarrow> tag_tail r2 = None"
    proof -
      fix l r2 assume "dropWhile is_space v = l # r2"
      then have "set r2 \<subseteq> set v" using set_dropWhileD [of _ is_space v] by auto
      with assms show "tag_tail r2 = None" by (auto intro: tag_tail_None)
    qed
    then have "match_html (c # r @ v) = None"
      by (auto simp: match_html_def d(2) split: list.splits)
    moreover have "match_html (c # r) = None"
      by (simp add: match_html_def d(1))
    ultimately show ?thesis using Cons by simp
  next
    case False
    then have d: "dropWhile is_space (r @ v) = dropWhile is_space r @ v"
      "takeWhile is_space (r @ v) = takeWhile is_space r"
      by (auto intro: dropWhile_append1 takeWhile_append1)
    from False have "dropWhile is_space r \<noteq> []" by auto
    then obtain l r2 where l: "dropWhile is_space r = l # r2" by (cases "dropWhile is_space r") auto
    show ?thesis
      using Cons d l tag_tail_append [OF assms, of r2]
      by (auto simp: match_html_def lazy_close_tag_append [OF assms] split: option.splits)
  qed
qed

lemma sub_html_no_GT: "GT \<notin> set s \<Longrightarrow> sub_html s = s"
proof (induction s)
  case Nil
  then show ?case by simp
next
  case (Cons c cs)
  then have "match_html (c # cs) = None" by (intro match_html_None) 
  with Cons show ?case by simp
qed

lemma sub_html_append:
  assumes "GT \<notin> set v"
  shows "sub_html (u @ v) = sub_html u @ v"
proof (induction u rule: sub_html.induct)
  case 1
  then show ?case using assms by (simp add: sub_html_no_GT)
next
  case (2 c cs)
  show ?case
  proof (cases "match_html (c # cs)")
    case None
    then have "match_html (c # cs @ v) = None" using match_html_append [OF assms, of "c # cs"] by simp
    with None 2 show ?thesis by simp
  next
    case (Some p)
    obtain m rest where p: "p = (m, rest)" by (cases p)
    with Some have "match_html (c # cs @ v) = Some (m, rest @ v)"
      using match_html_append [OF assms, of "c # cs"] by simp
    with Some p 2 show ?thesis by simp
  qed
qed

lemma match_html_STAR: "match_html (c # cs) = Some p \<Longrightarrow> c = STAR"
  by (auto simp: match_html_def split: if_splits)

lemma sub_html_hd: "\<exists>t. sub_html (c # cs) = c # t"
proof (cases "match_html (c # cs)")
  case None
  then show ?thesis by simp
next
  case (Some p)
  then have "c = STAR" by (rule match_html_STAR)
  with Some show ?thesis by (cases p) (simp add: placeholder_eq)
qed

lemma has_close_Cons:
  "has_close (c # x) \<longleftrightarrow> (c = STAR \<and> x \<noteq> [] \<and> hd x = SLASH) \<or> has_close x"
  by (cases x) auto

lemma no_close_placeholder: "\<not> has_close placeholder" "\<not> has_close (tl placeholder)"
  "last placeholder \<noteq> STAR" "last (tl placeholder) \<noteq> STAR" "tl placeholder \<noteq> []" "placeholder \<noteq> []"
  "hd placeholder = STAR"
  by (simp_all add: placeholder_eq)

lemma sub_html_no_close: "\<not> has_close s \<Longrightarrow> \<not> has_close (sub_html s)"
proof (induction s rule: sub_html.induct)
  case 1
  then show ?case by simp
next
  case (2 c cs)
  show ?case
  proof (cases "match_html (c # cs)")
    case None
    from "2.prems" have nc: "\<not> has_close cs" and h: "\<not> (c = STAR \<and> cs \<noteq> [] \<and> hd cs = SLASH)"
      by (auto simp: has_close_Cons)
    from None 2 nc have ih: "\<not> has_close (sub_html cs)" by simp
    have "sub_html cs \<noteq> [] \<Longrightarrow> cs \<noteq> [] \<and> hd (sub_html cs) = hd cs"
    proof (cases cs)
      case Nil
      then show "sub_html cs \<noteq> [] \<Longrightarrow> cs \<noteq> [] \<and> hd (sub_html cs) = hd cs" by simp
    next
      case (Cons d ds)
      then show ?thesis using sub_html_hd [of d ds] by auto
    qed
    with ih h have "\<not> has_close (c # sub_html cs)" by (auto simp: has_close_Cons)
    with None show ?thesis by simp
  next
    case (Some p)
    obtain m rest where p: "p = (m, rest)" by (cases p)
    from Some p have "c # cs = m @ rest" using match_html_split by blast
    with "2.prems" have "\<not> has_close rest" by (metis has_close_append)
    with Some p 2 have "\<not> has_close (sub_html rest)" by simp
    then have "\<not> has_close (placeholder @ sub_html rest)"
      by (simp add: has_close_append no_close_placeholder)
    with Some p show ?thesis by simp
  qed
qed

lemma replace_no_close:
  assumes new: "new \<noteq> []" "hd new \<noteq> SLASH" "last new \<noteq> STAR" "\<not> has_close new"
  shows "\<not> has_close s \<Longrightarrow> \<not> has_close (replace old new s)"
proof (induction s)
  case Nil
  then show ?case by simp
next
  case (Cons c cs)
  from Cons.prems have nc: "\<not> has_close cs" and h: "\<not> (c = STAR \<and> cs \<noteq> [] \<and> hd cs = SLASH)"
    by (auto simp: has_close_Cons)
  from Cons.IH nc have ih: "\<not> has_close (replace old new cs)" by simp
  show ?case
  proof (cases "c = old")
    case True
    with ih new show ?thesis by (simp add: has_close_append)
  next
    case False
    have "replace old new cs \<noteq> [] \<Longrightarrow> hd (replace old new cs) = SLASH \<Longrightarrow> cs \<noteq> [] \<and> hd cs = SLASH"
      using new by (cases cs) (auto split: if_splits)
    with ih h False show ?thesis by (auto simp: has_close_Cons)
  qed
qed

lemma escape_no_close: "\<not> has_close s \<Longrightarrow> \<not> has_close (escape s)"
  unfolding escape_def
  by (intro replace_no_close) (simp_all add: lit_lt lit_gt)

lemma match_comment_form:
  "match_comment s = Some (m, rest) \<longleftrightarrow>
     (\<exists>body. m = [SLASH, STAR, STAR] @ body @ [STAR, SLASH] \<and> s = m @ rest \<and> \<not> has_close (body @ [STAR]))"
proof
  assume a: "match_comment s = Some (m, rest)"
  then obtain r where s: "s = SLASH # STAR # STAR # r"
    by (cases s rule: match_comment.cases) (auto split: if_splits)
  with a obtain body where b: "find_close r = Some (body, rest)"
    "m = [SLASH, STAR, STAR] @ body @ [STAR, SLASH]"
    by (auto split: option.splits)
  from b(1) have "r = body @ [STAR, SLASH] @ rest" "\<not> has_close (body @ [STAR])"
    by (simp_all add: find_close_Some_iff)
  with s b(2) show "\<exists>body. m = [SLASH, STAR, STAR] @ body @ [STAR, SLASH] \<and> s = m @ rest \<and> \<not> has_close (body @ [STAR])"
    by auto
next
  assume "\<exists>body. m = [SLASH, STAR, STAR] @ body @ [STAR, SLASH] \<and> s = m @ rest \<and> \<not> has_close (body @ [STAR])"
  then obtain body where b: "m = [SLASH, STAR, STAR] @ body @ [STAR, SLASH]" "s = m @ rest"
    "\<not> has_close (body @ [STAR])" by blast
  from b(3) have "find_close (body @ STAR # SLASH # rest) = Some (body, rest)"
    by (rule find_close_first)
  with b(1,2) show "match_comment s = Some (m, rest)" by simp
qed

lemma sub_html_comment:
  "\<exists>b1. sub_html ([SLASH, STAR, STAR] @ body @ [STAR, SLASH]) = [SLASH, STAR, STAR] @ b1 @ [STAR, SLASH]
        \<and> sub_html (STAR # body) = STAR # b1"
proof -
  obtain b1 where b1: "sub_html (STAR # body) = STAR # b1" using sub_html_hd by blast
  have 1: "match_html (SLASH # STAR # STAR # body @ [STAR, SLASH]) = None"
    by (simp add: match_html_def)
  have 2: "match_html (STAR # STAR # body @ [STAR, SLASH]) = None"
    by (simp add: match_html_def is_space_def)
  have "sub_html ((STAR # body) @ [STAR, SLASH]) = sub_html (STAR # body) @ [STAR, SLASH]"
    by (rule sub_html_append) simp
  with 1 2 b1 show ?thesis by simp
qed

lemma sub_html_body_no_close:
  assumes "\<not> has_close (body @ [STAR])" "sub_html (STAR # body) = STAR # b1"
  shows "\<not> has_close (b1 @ [STAR])"
proof (cases "match_html (STAR # body)")
  case None
  with assms(2) have b1: "b1 = sub_html body" by simp
  have "sub_html (body @ [STAR]) = sub_html body @ [STAR]" by (rule sub_html_append) simp
  with sub_html_no_close [OF assms(1)] b1 show ?thesis by simp
next
  case (Some p)
  obtain m rest where p: "p = (m, rest)" by (cases p)
  from Some p have sp: "STAR # body = m @ rest" "8 \<le> length m" using match_html_split by blast+
  then obtain m' where m': "m = STAR # m'" by (cases m) auto
  with sp have "body @ [STAR] = m' @ (rest @ [STAR])" by simp
  with assms(1) have "\<not> has_close (rest @ [STAR])" by (metis has_close_append)
  then have "\<not> has_close (sub_html (rest @ [STAR]))" by (rule sub_html_no_close)
  moreover have "sub_html (rest @ [STAR]) = sub_html rest @ [STAR]" by (rule sub_html_append) simp
  ultimately have nc: "\<not> has_close (sub_html rest @ [STAR])" by simp
  from Some p assms(2) have "placeholder @ sub_html rest = STAR # b1" by simp
  then have "b1 = tl placeholder @ sub_html rest" by (simp add: placeholder_eq)
  with nc show ?thesis by (simp add: has_close_append no_close_placeholder)
qed

lemma process_comment_both:
  "LT \<in> set m \<and> GT \<in> set m \<Longrightarrow> process_comment m = escape (sub_html m)"
  by (simp add: process_comment_def)

lemma process_comment_other:
  "\<not> (LT \<in> set m \<and> GT \<in> set m) \<Longrightarrow> process_comment m = m"
  by (auto simp: process_comment_def)

lemma process_comment_form:
  assumes "\<not> has_close (body @ [STAR])"
  shows "\<exists>b2. process_comment ([SLASH, STAR, STAR] @ body @ [STAR, SLASH]) = [SLASH, STAR, STAR] @ b2 @ [STAR, SLASH]
        \<and> \<not> has_close (b2 @ [STAR])"
proof (cases "LT \<in> set ([SLASH, STAR, STAR] @ body @ [STAR, SLASH]) \<and> GT \<in> set ([SLASH, STAR, STAR] @ body @ [STAR, SLASH])")
  case False
  then have "process_comment ([SLASH, STAR, STAR] @ body @ [STAR, SLASH]) = [SLASH, STAR, STAR] @ body @ [STAR, SLASH]"
    by (rule process_comment_other)
  with assms show ?thesis by blast
next
  case True
  obtain b1 where b1: "sub_html ([SLASH, STAR, STAR] @ body @ [STAR, SLASH]) = [SLASH, STAR, STAR] @ b1 @ [STAR, SLASH]"
    "sub_html (STAR # body) = STAR # b1" using sub_html_comment by blast
  from sub_html_body_no_close [OF assms b1(2)] have "\<not> has_close (escape (b1 @ [STAR]))"
    by (rule escape_no_close)
  moreover have "escape (b1 @ [STAR]) = escape b1 @ [STAR]"
    by (simp add: escape_append escape_id)
  ultimately have nc: "\<not> has_close (escape b1 @ [STAR])" by simp
  from True have "process_comment ([SLASH, STAR, STAR] @ body @ [STAR, SLASH]) = escape (sub_html ([SLASH, STAR, STAR] @ body @ [STAR, SLASH]))"
    by (rule process_comment_both)
  also have "\<dots> = [SLASH, STAR, STAR] @ escape b1 @ [STAR, SLASH]"
  proof -
    have "escape [SLASH, STAR, STAR] = [SLASH, STAR, STAR]" "escape [STAR, SLASH] = [STAR, SLASH]"
      by (simp_all add: escape_id)
    then show ?thesis unfolding b1(1) by (simp only: escape_append)
  qed
  finally show ?thesis using nc by blast
qed

lemma match_comment_process:
  assumes "match_comment s = Some (m, rest)"
  shows "match_comment (process_comment m @ r') = Some (process_comment m, r')"
proof -
  from assms obtain body where m: "m = [SLASH, STAR, STAR] @ body @ [STAR, SLASH]" "\<not> has_close (body @ [STAR])"
    unfolding match_comment_form by blast
  from process_comment_form [OF m(2)] obtain b2 where
    b2: "process_comment m = [SLASH, STAR, STAR] @ b2 @ [STAR, SLASH]" "\<not> has_close (b2 @ [STAR])"
    using m(1) by blast
  show ?thesis unfolding match_comment_form using b2 by auto
qed


lemma match_comment_no_close: "\<not> has_close s \<Longrightarrow> match_comment s = None"
proof (cases "match_comment s")
  case None
  then show ?thesis by simp
next
  case (Some p)
  assume nc: "\<not> has_close s"
  obtain m rest where "p = (m, rest)" by (cases p)
  with Some have "match_comment s = Some (m, rest)" by simp
  then obtain body where "s = ([SLASH, STAR, STAR] @ body @ [STAR, SLASH]) @ rest"
    unfolding match_comment_form by blast
  then have "s = ([SLASH, STAR, STAR] @ body) @ [STAR, SLASH] @ rest" by simp
  then have "has_close s" unfolding has_close_iff by blast
  with nc show ?thesis by simp
qed

lemma fix_no_close: "\<not> has_close s \<Longrightarrow> fix_jsdoc_html s = s"
proof (induction s)
  case Nil
  then show ?case by simp
next
  case (Cons c cs)
  then have "\<not> has_close cs" by (simp add: has_close_Cons)
  with Cons show ?case by (simp add: match_comment_no_close)
qed

lemma match_comment_SLASH: "match_comment (c # cs) = Some p \<Longrightarrow> c = SLASH"
  by (cases "c # cs" rule: match_comment.cases) (auto split: if_splits)

lemma fix_hd: "\<exists>t. fix_jsdoc_html (c # cs) = c # t"
proof (cases "match_comment (c # cs)")
  case None
  then show ?thesis by simp
next
  case (Some p)
  obtain m rest where p: "p = (m, rest)" by (cases p)
  from Some have c: "c = SLASH" by (rule match_comment_SLASH)
  from Some p have "match_comment (c # cs) = Some (m, rest)" by simp
  then obtain body where m: "m = [SLASH, STAR, STAR] @ body @ [STAR, SLASH]"
    "\<not> has_close (body @ [STAR])"
    unfolding match_comment_form by blast
  from process_comment_form [OF m(2)] m(1) obtain b2 where
    "process_comment m = [SLASH, STAR, STAR] @ b2 @ [STAR, SLASH]" by blast
  with Some p c show ?thesis by simp
qed

lemma fix_STAR: "fix_jsdoc_html (STAR # cs) = STAR # fix_jsdoc_html cs"
proof -
  have "match_comment (STAR # cs) = None"
    by (cases "STAR # cs" rule: match_comment.cases) auto
  then show ?thesis by simp
qed

lemma fix_starts_STAR:
  assumes "fix_jsdoc_html s = STAR # x"
  shows "\<exists>r. s = STAR # r \<and> x = fix_jsdoc_html r"
proof (cases s)
  case Nil
  with assms show ?thesis by simp
next
  case (Cons d ds)
  with fix_hd [of d ds] assms have "d = STAR" by auto
  with Cons have s: "s = STAR # ds" by simp
  from assms have "STAR # fix_jsdoc_html ds = STAR # x" unfolding s fix_STAR .
  with s show ?thesis by simp
qed

lemma match_comment_fix_None:
  assumes "match_comment (c # cs) = None"
  shows "match_comment (c # fix_jsdoc_html cs) = None"
proof (cases "match_comment (c # fix_jsdoc_html cs)")
  case None
  then show ?thesis .
next
  case (Some p)
  then obtain x where x: "c = SLASH" "fix_jsdoc_html cs = STAR # STAR # x" "find_close x \<noteq> None"
    by (cases "c # fix_jsdoc_html cs" rule: match_comment.cases) (auto split: if_splits option.splits)
  from fix_starts_STAR [OF x(2)] obtain r where r: "cs = STAR # r" "STAR # x = fix_jsdoc_html r"
    by blast
  from fix_starts_STAR [OF r(2) [symmetric]] obtain e where e: "r = STAR # e" "x = fix_jsdoc_html e"
    by blast
  from x(3) have "has_close x" by (simp add: find_close_None)
  have "has_close e"
  proof (rule ccontr)
    assume "\<not> has_close e"
    then have "fix_jsdoc_html e = e" by (rule fix_no_close)
    with e(2) \<open>has_close x\<close> \<open>\<not> has_close e\<close> show False by simp
  qed
  then have "find_close e \<noteq> None" by (simp add: find_close_None)
  with x(1) r(1) e(1) have "match_comment (c # cs) \<noteq> None" by (auto split: option.splits)
  with assms show ?thesis by simp
qed

lemma segments_fix: "segments (fix_jsdoc_html s) = map sanitize_piece (segments s)"
proof (induction s rule: fix_jsdoc_html.induct)
  case 1
  then show ?case by simp
next
  case (2 c cs)
  show ?case
  proof (cases "match_comment (c # cs)")
    case None
    with 2 have ih: "segments (fix_jsdoc_html cs) = map sanitize_piece (segments cs)" by simp
    from None have "match_comment (c # fix_jsdoc_html cs) = None" by (rule match_comment_fix_None)
    with None ih show ?thesis by simp
  next
    case (Some p)
    obtain m rest where p: "p = (m, rest)" by (cases p)
    with Some 2 have ih: "segments (fix_jsdoc_html rest) = map sanitize_piece (segments rest)" by simp
    from Some p have k: "match_comment (process_comment m @ fix_jsdoc_html rest) = Some (process_comment m, fix_jsdoc_html rest)"
      by (intro match_comment_process) auto
    then obtain d ds where d: "process_comment m @ fix_jsdoc_html rest = d # ds"
      by (cases "process_comment m @ fix_jsdoc_html rest") auto
    have "segments (process_comment m @ fix_jsdoc_html rest) = Comment (process_comment m) # segments (fix_jsdoc_html rest)"
      using k unfolding d by simp
    with Some p ih show ?thesis by simp
  qed
qed

lemma concat_segments: "concat (map text_of (segments s)) = s"
proof (induction s rule: segments.induct)
  case 1
  then show ?case by simp
next
  case (2 c cs)
  then show ?case
    by (cases "match_comment (c # cs)") (auto dest: match_comment_split)
qed

lemma fix_segments: "fix_jsdoc_html s = concat (map text_of (map sanitize_piece (segments s)))"
proof (induction s rule: fix_jsdoc_html.induct)
  case 1
  then show ?case by simp
next
  case (2 c cs)
  then show ?case
    by (cases "match_comment (c # cs)") auto
qed

lemma process_comment_idem: "process_comment (process_comment m) = process_comment m"
proof (cases "LT \<in> set m \<and> GT \<in> set m")
  case True
  then have "process_comment m = escape (sub_html m)" by (rule process_comment_both)
  then have "\<not> (LT \<in> set (process_comment m) \<and> GT \<in> set (process_comment m))"
    using escape_no_brackets [of "sub_html m"] by simp
  then show ?thesis by (rule process_comment_other)
next
  case False
  then have "process_comment m = m" by (rule process_comment_other)
  then show ?thesis by simp
qed

lemma sanitize_piece_idem: "sanitize_piece (sanitize_piece p) = sanitize_piece p"
  by (cases p) (simp_all add: process_comment_idem)

lemma fix_idem: "fix_jsdoc_html (fix_jsdoc_html s) = fix_jsdoc_html s"
proof -
  have "fix_jsdoc_html (fix_jsdoc_html s) =
        concat (map text_of (map sanitize_piece (segments (fix_jsdoc_html s))))"
    by (rule fix_segments)
  also have "\<dots> = concat (map text_of (map sanitize_piece (map sanitize_piece (segments s))))"
    by (simp only: segments_fix)
  also have "\<dots> = concat (map text_of (map sanitize_piece (segments s)))"
    by (simp add: sanitize_piece_idem comp_def)
  also have "\<dots> = fix_jsdoc_html s" by (rule fix_segments [symmetric])
  finally show ?thesis .
qed

section \<open>Facts about the scan for comment blocks\<close>

lemma has_close_suffix: "has_close t \<Longrightarrow> has_close (x @ t)"
  by (simp add: has_close_append)

lemma find_close_append:
  assumes "\<not> has_close t" "\<not> (r \<noteq> [] \<and> t \<noteq> [] \<and> last r = STAR \<and> hd t = SLASH)"
  shows "find_close (r @ t) = (case find_close r of None \<Rightarrow> None | Some (b, q) \<Rightarrow> Some (b, q @ t))"
proof (cases "find_close r")
  case None
  then have "\<not> has_close r" by (simp add: find_close_None)
  with assms have "\<not> has_close (r @ t)" by (auto simp: has_close_append)
  then have "find_close (r @ t) = None" by (simp add: find_close_None)
  with None show ?thesis by simp
next
  case (Some p)
  obtain b q where p: "p = (b, q)" by (cases p)
  with Some have "r = b @ [STAR, SLASH] @ q" "\<not> has_close (b @ [STAR])"
    by (simp_all add: find_close_Some_iff)
  then have "find_close (r @ t) = Some (b, q @ t)"
    using find_close_first [of b "q @ t"] by simp
  with Some p show ?thesis by simp
qed

lemma match_comment_append:
  assumes "\<not> has_close t" "\<not> (u \<noteq> [] \<and> t \<noteq> [] \<and> last u = STAR \<and> hd t = SLASH)"
  shows "match_comment (u @ t) = (case match_comment u of None \<Rightarrow> None | Some (m, r) \<Rightarrow> Some (m, r @ t))"
proof -
  consider (long) a b c r where "u = a # b # c # r" | (nil) "u = []"
    | (one) a where "u = [a]" | (two) a b where "u = [a, b]"
    by (cases u rule: match_comment.cases) auto
  then show ?thesis
  proof cases
    case (long a b c r)
    with assms(2) have "\<not> (r \<noteq> [] \<and> t \<noteq> [] \<and> last r = STAR \<and> hd t = SLASH)" by auto
    from find_close_append [OF assms(1) this] long show ?thesis
      by (auto split: option.splits)
  next
    case nil
    with assms(1) show ?thesis by (simp add: match_comment_no_close)
  next
    case (one a)
    have "match_comment (a # t) = None"
    proof (cases "a # t" rule: match_comment.cases)
      case (1 a' b c r)
      then have "t = [b, c] @ r" by simp
      with assms(1) has_close_suffix [of r "[b, c]"] have "\<not> has_close r" by auto
      then have "find_close r = None" by (simp add: find_close_None)
      with 1 show ?thesis by simp
    qed simp_all
    with one show ?thesis by simp
  next
    case (two a b)
    have "match_comment (a # b # t) = None"
    proof (cases "a # b # t" rule: match_comment.cases)
      case (1 a' b' c r)
      then have "t = [c] @ r" by simp
      with assms(1) has_close_suffix [of r "[c]"] have "\<not> has_close r" by auto
      then have "find_close r = None" by (simp add: find_close_None)
      with 1 show ?thesis by simp
    qed simp_all
    with two show ?thesis by simp
  qed
qed

lemma fix_append_no_close:
  assumes t: "\<not> has_close t"
  shows "\<not> (u \<noteq> [] \<and> t \<noteq> [] \<and> last u = STAR \<and> hd t = SLASH) \<Longrightarrow>
         fix_jsdoc_html (u @ t) = fix_jsdoc_html u @ t"
proof (induction u rule: fix_jsdoc_html.induct)
  case 1
  then show ?case using t by (simp add: fix_no_close)
next
  case (2 c cs)
  note mc = match_comment_append [OF t "2.prems"]
  show ?case
  proof (cases "match_comment (c # cs)")
    case None
    with mc have n: "match_comment (c # cs @ t) = None" by simp
    from "2.prems" have "\<not> (cs \<noteq> [] \<and> t \<noteq> [] \<and> last cs = STAR \<and> hd t = SLASH)" by auto
    with "2.IH"(1) None have "fix_jsdoc_html (cs @ t) = fix_jsdoc_html cs @ t" by simp
    with None n show ?thesis by simp
  next
    case (Some p)
    obtain m rest where p: "p = (m, rest)" by (cases p)
    with Some mc have n: "match_comment (c # cs @ t) = Some (m, rest @ t)" by simp
    from Some p have sp: "c # cs = m @ rest" by (simp add: match_comment_split)
    have "rest \<noteq> [] \<Longrightarrow> last (c # cs) = last rest" unfolding sp by simp
    with "2.prems" have "\<not> (rest \<noteq> [] \<and> t \<noteq> [] \<and> last rest = STAR \<and> hd t = SLASH)"
      by auto
    with "2.IH"(2) Some p have "fix_jsdoc_html (rest @ t) = fix_jsdoc_html rest @ t" by simp
    with Some p n show ?thesis by simp
  qed
qed

lemma fix_no_LT: "LT \<notin> set s \<Longrightarrow> fix_jsdoc_html s = s"
proof (induction s rule: fix_jsdoc_html.induct)
  case 1
  then show ?case by simp
next
  case (2 c cs)
  show ?case
  proof (cases "match_comment (c # cs)")
    case None
    with 2 show ?thesis by simp
  next
    case (Some p)
    obtain m rest where p: "p = (m, rest)" by (cases p)
    from Some p have sp: "c # cs = m @ rest" by (simp add: match_comment_split)
    from "2.prems" have "LT \<notin> set (m @ rest)" unfolding sp .
    then have l: "LT \<notin> set m" "LT \<notin> set rest" by simp_all
    from "2.IH"(2) [OF Some p [symmetric] l(2)] have "fix_jsdoc_html rest = rest" .
    moreover from l(1) have "process_comment m = m" by (simp add: process_comment_other)
    ultimately have "fix_jsdoc_html (c # cs) = m @ rest" using Some p by simp
    with sp show ?thesis by simp
  qed
qed

lemma process_comment_append:
  assumes "LT \<notin> set v" "GT \<notin> set v"
  shows "\<exists>y. process_comment (u @ v) = y @ v"
proof (cases "LT \<in> set (u @ v) \<and> GT \<in> set (u @ v)")
  case True
  then have "process_comment (u @ v) = escape (sub_html (u @ v))" by (rule process_comment_both)
  also have "\<dots> = escape (sub_html u) @ v"
    using assms by (simp add: sub_html_append escape_append escape_id)
  finally show ?thesis by blast
next
  case False
  then have "process_comment (u @ v) = u @ v" by (rule process_comment_other)
  then show ?thesis by blast
qed

lemma fix_keeps_suffix_aux:
  assumes "LT \<notin> set w" "GT \<notin> set w"
  shows "s = pre @ w \<Longrightarrow> \<exists>y. fix_jsdoc_html s = y @ w"
proof (induction s arbitrary: pre rule: fix_jsdoc_html.induct)
  case 1
  then show ?case by simp
next
  case (2 c cs)
  show ?case
  proof (cases pre)
    case Nil
    with "2.prems" assms have "fix_jsdoc_html (c # cs) = [] @ w"
      using fix_no_LT [of w] by simp
    then show ?thesis by blast
  next
    case (Cons d pre')
    with "2.prems" have cs: "cs = pre' @ w" by simp
    show ?thesis
    proof (cases "match_comment (c # cs)")
      case None
      from "2.IH"(1) [OF None cs] obtain y where "fix_jsdoc_html cs = y @ w" by blast
      with None have "fix_jsdoc_html (c # cs) = (c # y) @ w" by simp
      then show ?thesis by blast
    next
      case (Some p)
      obtain m rest where p: "p = (m, rest)" by (cases p)
      from Some p have sp: "c # cs = m @ rest" by (simp add: match_comment_split)
      from Some p have fx: "fix_jsdoc_html (c # cs) = process_comment m @ fix_jsdoc_html rest"
        by simp
      from sp "2.prems" have "m @ rest = pre @ w" by simp
      then consider (inside) us where "pre = m @ us" "rest = us @ w"
        | (across) us where "m = pre @ us" "w = us @ rest"
        by (auto simp: append_eq_append_conv2)
      then show ?thesis
      proof cases
        case inside
        from "2.IH"(2) [OF Some p [symmetric] inside(2)] obtain y where
          "fix_jsdoc_html rest = y @ w" by blast
        with fx have "fix_jsdoc_html (c # cs) = (process_comment m @ y) @ w" by simp
        then show ?thesis by blast
      next
        case across
        with assms have "LT \<notin> set us" "GT \<notin> set us" "LT \<notin> set rest" by auto
        then obtain y where "process_comment (pre @ us) = y @ us" "fix_jsdoc_html rest = rest"
          using process_comment_append [of us pre] fix_no_LT [of rest] by blast
        with fx across have "fix_jsdoc_html (c # cs) = y @ w" by simp
        then show ?thesis by blast
      qed
    qed
  qed
qed

lemma fix_keeps_suffix:
  assumes "LT \<notin> set w" "GT \<notin> set w"
  shows "\<exists>y. fix_jsdoc_html (pre @ w) = y @ w"
  using fix_keeps_suffix_aux [OF assms refl] .

lemma unterminated_kept:
  assumes "\<not> has_close rest"
  shows "\<exists>y. fix_jsdoc_html (pre @ [SLASH, STAR, STAR] @ rest) = y @ [SLASH, STAR, STAR] @ rest"
proof (cases "rest \<noteq> [] \<and> hd rest = SLASH")
  case False
  then have "fix_jsdoc_html ((pre @ [SLASH, STAR, STAR]) @ rest) =
             fix_jsdoc_html (pre @ [SLASH, STAR, STAR]) @ rest"
    by (intro fix_append_no_close [OF assms]) auto
  moreover obtain y where "fix_jsdoc_html (pre @ [SLASH, STAR, STAR]) = y @ [SLASH, STAR, STAR]"
    using fix_keeps_suffix [of "[SLASH, STAR, STAR]" pre] by auto
  ultimately show ?thesis by simp
next
  case True
  then obtain r where r: "rest = SLASH # r" by (cases rest) auto
  with assms have "\<not> has_close r" by (simp add: has_close_Cons)
  then have "fix_jsdoc_html ((pre @ [SLASH, STAR, STAR, SLASH]) @ r) =
             fix_jsdoc_html (pre @ [SLASH, STAR, STAR, SLASH]) @ r"
    by (intro fix_append_no_close) auto
  moreover obtain y where "fix_jsdoc_html (pre @ [SLASH, STAR, STAR, SLASH]) = y @ [SLASH, STAR, STAR, SLASH]"
    using fix_keeps_suffix [of "[SLASH, STAR, STAR, SLASH]" pre] by auto
  ultimately show ?thesis using r by simp
qed

lemma comments_fix: "comments (fix_jsdoc_html s) = map process_comment (comments s)"
proof -
  have "blocks_of (map sanitize_piece ps) = map process_comment (blocks_of ps)" for ps
    by (induction ps rule: blocks_of.induct) simp_all
  then show ?thesis by (simp add: comments_def segments_fix)
qed

lemma outside_fix: "outside_of (segments (fix_jsdoc_html s)) = outside_of (segments s)"
proof -
  have "outside_of (map sanitize_piece ps) = outside_of ps" for ps
    by (induction ps rule: outside_of.induct) simp_all
  then show ?thesis by (simp add: segments_fix)
qed

lemma comments_Nil_fix: "comments s = [] \<Longrightarrow> fix_jsdoc_html s = s"
proof (induction s rule: fix_jsdoc_html.induct)
  case 1
  then show ?case by simp
next
  case (2 c cs)
  then show ?case by (cases "match_comment (c # cs)") (auto simp: comments_def)
qed

lemma comments_Nil_iff:
  "comments s = [] \<longleftrightarrow> \<not> (\<exists>p b q. s = p @ [SLASH, STAR, STAR] @ b @ [STAR, SLASH] @ q)"
proof
  assume "comments s = []"
  then show "\<not> (\<exists>p b q. s = p @ [SLASH, STAR, STAR] @ b @ [STAR, SLASH] @ q)"
  proof (induction s rule: segments.induct)
    case 1
    then show ?case by simp
  next
    case (2 c cs)
    from "2.prems" have n: "match_comment (c # cs) = None"
      by (cases "match_comment (c # cs)") (auto simp: comments_def)
    with 2 have ih: "\<not> (\<exists>p b q. cs = p @ [SLASH, STAR, STAR] @ b @ [STAR, SLASH] @ q)"
      by (simp add: comments_def)
    show ?case
    proof
      assume "\<exists>p b q. c # cs = p @ [SLASH, STAR, STAR] @ b @ [STAR, SLASH] @ q"
      then obtain p b q where e: "c # cs = p @ [SLASH, STAR, STAR] @ b @ [STAR, SLASH] @ q" by blast
      show False
      proof (cases p)
        case Nil
        with e have "cs = [STAR, STAR] @ b @ [STAR, SLASH] @ q" "c = SLASH" by simp_all
        moreover have "has_close (b @ [STAR, SLASH] @ q)" unfolding has_close_iff by blast
        ultimately have "match_comment (c # cs) \<noteq> None"
          by (auto simp: find_close_None split: option.splits)
        with n show False by simp
      next
        case (Cons d p')
        with e have "cs = p' @ [SLASH, STAR, STAR] @ b @ [STAR, SLASH] @ q" by simp
        with ih show False by blast
      qed
    qed
  qed
next
  assume a: "\<not> (\<exists>p b q. s = p @ [SLASH, STAR, STAR] @ b @ [STAR, SLASH] @ q)"
  then show "comments s = []"
  proof (induction s rule: segments.induct)
    case 1
    then show ?case by (simp add: comments_def)
  next
    case (2 c cs)
    have n: "match_comment (c # cs) = None"
    proof (cases "match_comment (c # cs)")
      case (Some x)
      obtain m rest where "x = (m, rest)" by (cases x)
      with Some have "match_comment (c # cs) = Some (m, rest)" by simp
      then obtain body where "c # cs = ([SLASH, STAR, STAR] @ body @ [STAR, SLASH]) @ rest"
        unfolding match_comment_form by blast
      then have "c # cs = [] @ [SLASH, STAR, STAR] @ body @ [STAR, SLASH] @ rest" by simp
      with "2.prems" show ?thesis by blast
    qed simp
    have "\<not> (\<exists>p b q. cs = p @ [SLASH, STAR, STAR] @ b @ [STAR, SLASH] @ q)"
    proof
      assume "\<exists>p b q. cs = p @ [SLASH, STAR, STAR] @ b @ [STAR, SLASH] @ q"
      then obtain p b q where "cs = p @ [SLASH, STAR, STAR] @ b @ [STAR, SLASH] @ q" by blast
      then have "c # cs = (c # p) @ [SLASH, STAR, STAR] @ b @ [STAR, SLASH] @ q" by simp
      with "2.prems" show False by blast
    qed
    with "2.IH"(1) n have "comments cs = []" by simp
    with n show ?case by (simp add: comments_def)
  qed
qed

section \<open>Facts about the located blocks\<close>

lemma lit_open: "lit ''/**'' = [SLASH, STAR, STAR]" by (simp add: lit_def)
lemma lit_close: "lit ''*/'' = [STAR, SLASH]" by (simp add: lit_def)

lemma escape_concat: "escape s = concat (map escaped_char s)"
  by (induction s) (simp_all add: escape_Cons escaped_char_def, simp add: escape_def)

lemma comments_form:
  "m \<in> set (comments s) \<Longrightarrow>
     \<exists>body. m = [SLASH, STAR, STAR] @ body @ [STAR, SLASH] \<and> \<not> has_close (body @ [STAR])"
proof (induction s rule: segments.induct)
  case 1
  then show ?case by (simp add: comments_def)
next
  case (2 c cs)
  show ?case
  proof (cases "match_comment (c # cs)")
    case None
    with 2 show ?thesis by (simp add: comments_def)
  next
    case (Some p)
    obtain b rest where p: "p = (b, rest)" by (cases p)
    with Some have mc: "match_comment (c # cs) = Some (b, rest)" by simp
    from "2.prems" Some p have "m = b \<or> m \<in> set (comments rest)" by (simp add: comments_def)
    then show ?thesis
    proof
      assume "m = b"
      with mc show ?thesis unfolding match_comment_form by blast
    next
      assume "m \<in> set (comments rest)"
      with "2.IH"(2) [OF Some p [symmetric]] show ?thesis by simp
    qed
  qed
qed

lemma process_comment_delims:
  assumes "m \<in> set (comments s)"
  shows "\<exists>b b'. m = [SLASH, STAR, STAR] @ b @ [STAR, SLASH] \<and>
                process_comment m = [SLASH, STAR, STAR] @ b' @ [STAR, SLASH]"
proof -
  from comments_form [OF assms] obtain body where
    b: "m = [SLASH, STAR, STAR] @ body @ [STAR, SLASH]" "\<not> has_close (body @ [STAR])" by blast
  from process_comment_form [OF b(2)] b(1) show ?thesis by blast
qed

section \<open>Facts about the run\<close>



lemma written_append: "written (xs @ ys) = written xs @ written ys"
  by (induction xs rule: written.induct) simp_all


lemma print_call_trace:
  "trace (fst (print_call sys ev w)) = trace w @ [ev] \<and>
   files_on_disk (fst (print_call sys ev w)) = files_on_disk w"
  by (cases "print_line sys (console w) ev") (simp add: print_call_def)



section \<open>The matcher finds the smallest span\<close>

text \<open>
  \<open>match_html\<close> against \<open>html_span\<close>: it matches where a span begins and nowhere
  else, and what it matches is the smallest span there. So \<open>sub_html\<close> is the
  replacement that \<open>html_replaced\<close> describes.
\<close>

lemma tag_tail_form:
  "tag_tail s = Some (t, rest) \<Longrightarrow> \<exists>a. t = a @ [GT] \<and> a \<noteq> [] \<and> GT \<notin> set a"
proof -
  assume a: "tag_tail s = Some (t, rest)"
  then obtain g where
    d: "dropWhile (\<lambda>c. c \<noteq> GT) s = g # rest" and
    t: "t = takeWhile (\<lambda>c. c \<noteq> GT) s @ [g]" and
    n: "takeWhile (\<lambda>c. c \<noteq> GT) s \<noteq> []"
    by (auto simp: tag_tail_def split: list.splits if_splits)
  from d have "g = GT" using hd_dropWhile [of "\<lambda>c. c \<noteq> GT" s] by auto
  moreover have "GT \<notin> set (takeWhile (\<lambda>c. c \<noteq> GT) s)"
    using set_takeWhileD [of GT "\<lambda>c. c \<noteq> GT" s] by auto
  ultimately show ?thesis using t n by blast
qed

lemma tag_tail_exact:
  assumes "a \<noteq> []" "GT \<notin> set a"
  shows "tag_tail (a @ GT # y) = Some (a @ [GT], y)"
proof -
  from assms(2) have "takeWhile (\<lambda>c. c \<noteq> GT) (a @ GT # y) = a"
    "dropWhile (\<lambda>c. c \<noteq> GT) (a @ GT # y) = GT # y"
    by (induction a) auto
  with assms(1) show ?thesis by (simp add: tag_tail_def)
qed

lemma close_tag_form:
  "close_tag s = Some (t, rest) \<Longrightarrow> \<exists>b. t = [LT, SLASH] @ b @ [GT] \<and> b \<noteq> [] \<and> GT \<notin> set b"
  by (cases s rule: close_tag.cases)
     (auto split: if_splits option.splits dest: tag_tail_form)

lemma lazy_close_tag_form:
  "lazy_close_tag s = Some (m, rest) \<Longrightarrow>
     \<exists>mid b. m = mid @ [LT, SLASH] @ b @ [GT] \<and> b \<noteq> [] \<and> GT \<notin> set b"
proof (induction s arbitrary: m rest)
  case Nil
  then show ?case by simp
next
  case (Cons c cs)
  show ?case
  proof (cases "close_tag (c # cs)")
    case None
    with Cons.prems obtain m' where m': "lazy_close_tag cs = Some (m', rest)" "m = c # m'"
      by (auto split: option.splits)
    from Cons.IH [OF m'(1)] obtain mid b where
      "m' = mid @ [LT, SLASH] @ b @ [GT]" "b \<noteq> []" "GT \<notin> set b" by blast
    with m'(2) have "m = (c # mid) @ [LT, SLASH] @ b @ [GT]" by simp
    with \<open>b \<noteq> []\<close> \<open>GT \<notin> set b\<close> show ?thesis by blast
  next
    case (Some p)
    with Cons.prems have "close_tag (c # cs) = Some (m, rest)" by (cases p) simp
    from close_tag_form [OF this] obtain b where
      "m = [] @ [LT, SLASH] @ b @ [GT]" "b \<noteq> []" "GT \<notin> set b" by auto
    then show ?thesis by blast
  qed
qed

lemma match_html_span:
  assumes "match_html s = Some (m, rest)"
  shows "html_span m"
proof -
  from assms obtain c r where s: "s = c # r" and c: "c = STAR"
    by (cases s) (auto simp: match_html_def split: if_splits)
  from assms s c obtain l r2 where d: "dropWhile is_space r = l # r2" and l: "l = LT"
    by (cases "dropWhile is_space r") (auto simp: match_html_def split: if_splits)
  from assms s c d l obtain t r3 where t: "tag_tail r2 = Some (t, r3)"
    by (cases "tag_tail r2") (auto simp: match_html_def)
  from assms s c d l t obtain m' where
    m': "lazy_close_tag r3 = Some (m', rest)" and
    m: "m = c # takeWhile is_space r @ l # t @ m'"
    by (cases "lazy_close_tag r3") (auto simp: match_html_def)
  from tag_tail_form [OF t] obtain a where a: "t = a @ [GT]" "a \<noteq> []" "GT \<notin> set a" by blast
  from lazy_close_tag_form [OF m'] obtain mid b where
    b: "m' = mid @ [LT, SLASH] @ b @ [GT]" "b \<noteq> []" "GT \<notin> set b" by blast
  have "\<forall>x \<in> set (takeWhile is_space r). is_space x" by (auto dest: set_takeWhileD)
  moreover from m c l a(1) b(1) have
    "m = [STAR] @ takeWhile is_space r @ [LT] @ a @ [GT] @ mid @ [LT, SLASH] @ b @ [GT]" by simp
  ultimately show ?thesis unfolding html_span_def using a(2,3) b(2,3) by blast
qed

lemma length_takeWhile_append_le:
  "\<not> P y \<Longrightarrow> length (takeWhile P (u @ y # v)) \<le> length u"
  by (induction u) auto

lemma close_tag_bound:
  assumes "close_tag s = Some (t, r)" "s = x @ GT # y" "2 \<le> length x"
  shows "length t \<le> length x + 1"
proof -
  from assms(3) obtain a b x' where x: "x = a # b # x'"
    by (cases x rule: close_tag.cases) auto
  with assms(2) have s: "s = a # b # (x' @ GT # y)" by simp
  with assms(1) obtain t0 where t0: "tag_tail (x' @ GT # y) = Some (t0, r)" "t = a # b # t0"
    by (auto split: if_splits option.splits)
  from t0(1) have "length t0 = length (takeWhile (\<lambda>c. c \<noteq> GT) (x' @ GT # y)) + 1"
    by (auto simp: tag_tail_def split: list.splits if_splits)
  also have "\<dots> \<le> length x' + 1"
    using length_takeWhile_append_le [of "\<lambda>c. c \<noteq> GT" GT x' y] by simp
  finally show ?thesis using t0(2) x by simp
qed

lemma lazy_close_tag_bound:
  assumes "b \<noteq> []" "GT \<notin> set b"
  shows "\<exists>mm r. lazy_close_tag (mid @ LT # SLASH # b @ GT # y) = Some (mm, r) \<and>
                length mm \<le> length mid + length b + 3"
proof (induction mid)
  case Nil
  have "close_tag (LT # SLASH # b @ GT # y) = Some (LT # SLASH # b @ [GT], y)"
    using tag_tail_exact [OF assms, of y] by simp
  then show ?case by simp
next
  case (Cons c mid)
  then obtain mm r where ih: "lazy_close_tag (mid @ LT # SLASH # b @ GT # y) = Some (mm, r)"
    "length mm \<le> length mid + length b + 3" by blast
  show ?case
  proof (cases "close_tag (c # mid @ LT # SLASH # b @ GT # y)")
    case None
    with ih show ?thesis by simp
  next
    case (Some p)
    obtain t r' where p: "p = (t, r')" by (cases p)
    have e: "c # mid @ LT # SLASH # b @ GT # y = (c # mid @ LT # SLASH # b) @ GT # y" by simp
    from Some p have ct: "close_tag (c # mid @ LT # SLASH # b @ GT # y) = Some (t, r')" by simp
    have "length t \<le> length (c # mid @ LT # SLASH # b) + 1"
      by (rule close_tag_bound [OF ct e]) simp
    moreover from ct have "lazy_close_tag ((c # mid) @ LT # SLASH # b @ GT # y) = Some (t, r')"
      by simp
    ultimately show ?thesis by simp
  qed
qed

lemma match_html_complete:
  assumes "html_span m'"
  shows "\<exists>m rest. match_html (m' @ rest') = Some (m, rest) \<and> length m \<le> length m'"
proof -
  from assms obtain ws a mid b where
    m': "m' = [STAR] @ ws @ [LT] @ a @ [GT] @ mid @ [LT, SLASH] @ b @ [GT]" and
    ws: "\<forall>c \<in> set ws. is_space c" and a: "a \<noteq> []" "GT \<notin> set a" and b: "b \<noteq> []" "GT \<notin> set b"
    unfolding html_span_def by blast
  let ?r2 = "a @ GT # mid @ LT # SLASH # b @ GT # rest'"
  let ?r = "ws @ LT # ?r2"
  have s: "m' @ rest' = STAR # ?r" using m' by simp
  have nl: "\<not> is_space LT" by (simp add: is_space_def)
  from ws nl have d: "dropWhile is_space ?r = LT # ?r2" "takeWhile is_space ?r = ws"
    by (induction ws) auto
  have t: "tag_tail ?r2 = Some (a @ [GT], mid @ LT # SLASH # b @ GT # rest')"
    by (rule tag_tail_exact [OF a])
  from lazy_close_tag_bound [OF b, of mid rest'] obtain mm r where
    l: "lazy_close_tag (mid @ LT # SLASH # b @ GT # rest') = Some (mm, r)"
    "length mm \<le> length mid + length b + 3" by blast
  have "match_html (STAR # ?r) = Some (STAR # ws @ LT # (a @ [GT]) @ mm, r)"
    unfolding match_html_def by (simp only: list.case d t l option.case prod.case if_False refl simp_thms)
  moreover have "length (STAR # ws @ LT # (a @ [GT]) @ mm) \<le> length m'"
    using l(2) m' by simp
  ultimately show ?thesis unfolding s by blast
qed


lemma no_span_iff: "match_html s = None \<longleftrightarrow> \<not> (\<exists>m. prefix m s \<and> html_span m)"
proof
  assume n: "match_html s = None"
  show "\<not> (\<exists>m. prefix m s \<and> html_span m)"
  proof
    assume "\<exists>m. prefix m s \<and> html_span m"
    then obtain m r where "s = m @ r" "html_span m" by (auto simp: prefix_def)
    with match_html_complete [of m r] n show False by auto
  qed
next
  assume a: "\<not> (\<exists>m. prefix m s \<and> html_span m)"
  show "match_html s = None"
  proof (cases "match_html s")
    case (Some p)
    obtain m rest where "p = (m, rest)" by (cases p)
    with Some have "match_html s = Some (m, rest)" by simp
    then have "prefix m s" "html_span m"
      using match_html_split [of s m rest] match_html_span [of s m rest] by auto
    with a show ?thesis by blast
  qed simp
qed

lemma match_html_smallest:
  "match_html s = Some (m, rest) \<longleftrightarrow> s = m @ rest \<and> smallest_span m s"
proof
  assume a: "match_html s = Some (m, rest)"
  then have s: "s = m @ rest" using match_html_split by blast
  have "length m \<le> length m'" if "prefix m' s" "html_span m'" for m'
  proof -
    from that(1) obtain r' where "s = m' @ r'" by (auto simp: prefix_def)
    with match_html_complete [OF that(2), of r'] a show ?thesis by auto
  qed
  with s match_html_span [OF a] show "s = m @ rest \<and> smallest_span m s"
    unfolding smallest_span_def by auto
next
  assume a: "s = m @ rest \<and> smallest_span m s"
  then have s: "s = m @ rest" and h: "html_span m"
    and least: "\<And>m'. prefix m' s \<Longrightarrow> html_span m' \<Longrightarrow> length m \<le> length m'"
    unfolding smallest_span_def by auto
  from match_html_complete [OF h, of rest] s obtain m2 rest2 where
    m2: "match_html s = Some (m2, rest2)" "length m2 \<le> length m" by auto
  from m2(1) have s2: "s = m2 @ rest2" and h2: "html_span m2"
    using match_html_split [of s m2 rest2] match_html_span [of s m2 rest2] by auto
  from s2 have "prefix m2 s" by simp
  from least [OF this h2] m2(2) have "length m = length m2" by simp
  with s s2 have "m = m2" "rest = rest2" by auto
  with m2(1) show "match_html s = Some (m, rest)" by simp
qed

lemma html_replaced_sub_html: "html_replaced s (sub_html s)"
proof (induction s rule: sub_html.induct)
  case 1
  show ?case by (simp add: html_replaced.at_end)
next
  case (2 c cs)
  show ?case
  proof (cases "match_html (c # cs)")
    case None
    then have "\<not> (\<exists>m. prefix m (c # cs) \<and> html_span m)" by (simp add: no_span_iff)
    moreover from None 2 have "html_replaced cs (sub_html cs)" by simp
    ultimately have "html_replaced (c # cs) (c # sub_html cs)" by (rule html_replaced.keep)
    with None show ?thesis by simp
  next
    case (Some p)
    obtain m rest where p: "p = (m, rest)" by (cases p)
    with Some have mh: "match_html (c # cs) = Some (m, rest)" by simp
    then have s: "c # cs = m @ rest" and sm: "smallest_span m (m @ rest)"
      unfolding match_html_smallest by auto
    from Some p 2 have "html_replaced rest (sub_html rest)" by simp
    with sm have "html_replaced (m @ rest) (placeholder @ sub_html rest)"
      by (rule html_replaced.span)
    moreover from mh have "sub_html (c # cs) = placeholder @ sub_html rest" by simp
    ultimately show ?thesis unfolding s [symmetric] by simp
  qed
qed

lemma html_replaced_unique: "html_replaced s t \<Longrightarrow> t = sub_html s"
proof (induction rule: html_replaced.induct)
  case at_end
  show ?case by simp
next
  case (keep c cs t)
  from keep.hyps(1) have "match_html (c # cs) = None" by (simp add: no_span_iff)
  with keep.IH show ?case by simp
next
  case (span m rest t)
  then have mh: "match_html (m @ rest) = Some (m, rest)" by (simp add: match_html_smallest)
  then have "8 \<le> length m" using match_html_split by blast
  then obtain c cs where "m @ rest = c # cs" by (cases m) auto
  with mh span.IH show ?case by simp
qed

lemma html_replaced_iff: "html_replaced s t \<longleftrightarrow> t = sub_html s"
  using html_replaced_unique html_replaced_sub_html by blast

lemma opening_tag_holds_close:
  "tag_tail (lit ''a x </b> foo </c> */'') = Some (lit ''a x </b>'', lit '' foo </c> */'')"
  "match_html (lit ''* <a x </b> foo </c> */'') = Some (lit ''* <a x </b> foo </c>'', lit '' */'')"
  by (simp_all add: match_html_def tag_tail_def is_space_def lit_def)

lemma spec_and_code_differ:
  "spec_match_html (lit ''* <a x </b> */'') = Some (lit ''* <a x </b>'', lit '' */'')"
  "match_html (lit ''* <a x </b> */'') = None"
  by (simp_all add: spec_match_html_def match_html_def tag_tail_def is_space_def lit_def)

section \<open>Claims\<close>

subsection \<open>C1: the spans that are replaced\<close>

text \<open>
  C1 (as stated): in every located block that contains \<^verbatim>\<open><\<close> and \<^verbatim>\<open>>\<close>, each
  smallest span made of \<^verbatim>\<open>*\<close>, white space, \<^verbatim>\<open><\<close>, then any characters up to and
  including a closing tag \<^verbatim>\<open></...>\<close> is replaced by the placeholder (and the
  remaining brackets are escaped). This fails: the code's pattern asks for a whole
  opening tag first, and a closing tag after it. In \<^verbatim>\<open>/** <a x </b> */\<close> the
  opening tag is \<^verbatim>\<open><a x </b>\<close> (everything up to the first \<^verbatim>\<open>>\<close>) and no closing
  tag follows it, so the code finds no span, where the words of the specification
  find \<^verbatim>\<open>* <a x </b>\<close>. (With a closing tag behind it, as in
  \<^verbatim>\<open>* <a x </b> foo </c>\<close>, the code does find a span: \<open>opening_tag_holds_close\<close>.)
\<close>

theorem spec_span_counterexample:
  "\<not> (\<forall>s. \<forall>i < length (comments s).
        LT \<in> set (comments s ! i) \<and> GT \<in> set (comments s ! i) \<longrightarrow>
        comments (fix_jsdoc_html s) ! i = spec_process_comment (comments s ! i))"
proof
  assume a: "\<forall>s. \<forall>i < length (comments s).
        LT \<in> set (comments s ! i) \<and> GT \<in> set (comments s ! i) \<longrightarrow>
        comments (fix_jsdoc_html s) ! i = spec_process_comment (comments s ! i)"
  have c: "comments (lit ''/** <a x </b> */'') = [lit ''/** <a x </b> */'']"
    by (simp add: comments_def lit_def)
  have f: "fix_jsdoc_html (lit ''/** <a x </b> */'') = lit ''/** &lt;a x &lt;/b&gt; */''"
    by (simp add: lit_def match_html_def tag_tail_def process_comment_def escape_def is_space_def)
  have c': "comments (lit ''/** &lt;a x &lt;/b&gt; */'') = [lit ''/** &lt;a x &lt;/b&gt; */'']"
    by (simp add: comments_def lit_def)
  have sp: "spec_process_comment (lit ''/** <a x </b> */'') =
      lit ''/** [HTML example removed for Vite compatibility] */''"
    by (simp add: lit_def spec_match_html_def tag_tail_def spec_process_comment_def escape_def
        is_space_def placeholder_def)
  have b: "LT \<in> set (lit ''/** <a x </b> */'')" "GT \<in> set (lit ''/** <a x </b> */'')"
    by (simp_all add: lit_def)
  from a [rule_format, of 0 "lit ''/** <a x </b> */''"] b
  have "comments (fix_jsdoc_html (lit ''/** <a x </b> */'')) ! 0 =
        spec_process_comment (lit ''/** <a x </b> */'')"
    unfolding c by simp
  then have "lit ''/** &lt;a x &lt;/b&gt; */'' =
      lit ''/** [HTML example removed for Vite compatibility] */''"
    unfolding f c' sp by simp
  then show False by (simp add: lit_def)
qed

text \<open>
  C1 (amended): in every located block that contains \<^verbatim>\<open><\<close> and \<^verbatim>\<open>>\<close>, each
  smallest span made of \<^verbatim>\<open>*\<close>, white space, an opening tag (\<^verbatim>\<open><\<close>, one or more
  characters other than \<^verbatim>\<open>>\<close>, \<^verbatim>\<open>>\<close>), any characters, and a closing tag (\<^verbatim>\<open></\<close>,
  one or more characters other than \<^verbatim>\<open>>\<close>, \<^verbatim>\<open>>\<close>) is replaced by the placeholder,
  from left to right and without overlap: the block of the output is the escaped
  form of the one text \<open>t\<close> with \<open>html_replaced block t\<close>.
\<close>

theorem html_spans_replaced:
  assumes "i < length (comments s)" "LT \<in> set (comments s ! i)" "GT \<in> set (comments s ! i)"
  shows "(\<exists>t. html_replaced (comments s ! i) t) \<and>
         (\<forall>t. html_replaced (comments s ! i) t \<longrightarrow>
              comments (fix_jsdoc_html s) ! i = escape t)"
proof -
  from assms(1) have e: "comments (fix_jsdoc_html s) ! i = process_comment (comments s ! i)"
    by (simp add: comments_fix)
  from assms(2,3) have p: "process_comment (comments s ! i) = escape (sub_html (comments s ! i))"
    by (simp add: process_comment_both)
  show ?thesis unfolding e p html_replaced_iff by simp
qed

theorem html_spans_replaced_witness:
  "html_replaced (lit ''/** <div>hello</div> more text */'')
     (lit ''/** [HTML example removed for Vite compatibility] more text */'')
   \<and> comments (fix_jsdoc_html (lit ''x /** <div>hello</div> more text */'')) ! 0 =
       lit ''/** [HTML example removed for Vite compatibility] more text */''"
proof -
  have c: "comments (lit ''x /** <div>hello</div> more text */'') =
      [lit ''/** <div>hello</div> more text */'']"
    by (simp add: comments_def lit_def)
  have sh: "sub_html (lit ''/** <div>hello</div> more text */'') =
      lit ''/** [HTML example removed for Vite compatibility] more text */''"
    by (simp add: lit_def match_html_def tag_tail_def is_space_def placeholder_def)
  have r: "html_replaced (lit ''/** <div>hello</div> more text */'')
     (lit ''/** [HTML example removed for Vite compatibility] more text */'')"
    using html_replaced_sub_html [of "lit ''/** <div>hello</div> more text */''"] unfolding sh .
  have es: "escape (lit ''/** [HTML example removed for Vite compatibility] more text */'') =
      lit ''/** [HTML example removed for Vite compatibility] more text */''"
    by (rule escape_id) (simp_all add: lit_def)
  have "0 < length (comments (lit ''x /** <div>hello</div> more text */''))"
    "LT \<in> set (comments (lit ''x /** <div>hello</div> more text */'') ! 0)"
    "GT \<in> set (comments (lit ''x /** <div>hello</div> more text */'') ! 0)"
    unfolding c by (simp_all add: lit_def)
  from html_spans_replaced [OF this] have
    "\<forall>t. html_replaced (comments (lit ''x /** <div>hello</div> more text */'') ! 0) t \<longrightarrow>
       comments (fix_jsdoc_html (lit ''x /** <div>hello</div> more text */'')) ! 0 = escape t"
    by blast
  then have "comments (fix_jsdoc_html (lit ''x /** <div>hello</div> more text */'')) ! 0 =
      escape (lit ''/** [HTML example removed for Vite compatibility] more text */'')"
    unfolding c using r by simp
  with r show ?thesis unfolding es by blast
qed

subsection \<open>C2: the length of the output\<close>

text \<open>
  C2 (as stated): for every content, the length of \<open>sanitize(content)\<close> is at most
  the length of \<open>content\<close>. This fails: escaping a bracket turns one character
  into four.
\<close>

theorem sanitize_length_counterexample:
  "\<not> (\<forall>s. length (fix_jsdoc_html s) \<le> length s)"
proof
  assume a: "\<forall>s. length (fix_jsdoc_html s) \<le> length s"
  have "fix_jsdoc_html (lit ''/** value < 5 and > 2 */'') = lit ''/** value &lt; 5 and &gt; 2 */''"
    by (simp add: lit_def match_html_def tag_tail_def process_comment_def escape_def is_space_def)
  with a [rule_format, of "lit ''/** value < 5 and > 2 */''"] show False
    by (simp add: lit_def)
qed

text \<open>
  C2 (amended): the output is at most 47/8 times as long as the input. The
  placeholder has 47 characters and replaces a span of at least 8; an escaped
  bracket has 4 characters and replaces 1.
\<close>

theorem sanitize_length_bound:
  "8 * length (fix_jsdoc_html s) \<le> 47 * length s"
  by (rule length_fix)

theorem sanitize_length_bound_witness:
  "8 * length (fix_jsdoc_html (lit ''/** <a></b>*/'')) \<le> 47 * length (lit ''/** <a></b>*/'')
   \<and> length (fix_jsdoc_html (lit ''/** <a></b>*/'')) = 51"
proof -
  have e: "fix_jsdoc_html (lit ''/** <a></b>*/'') =
        lit ''/** [HTML example removed for Vite compatibility]*/''"
    by (simp add: lit_def match_html_def tag_tail_def process_comment_def escape_def
        is_space_def placeholder_def)
  show ?thesis
    using sanitize_length_bound [of "lit ''/** <a></b>*/''"] unfolding e
    by (simp add: lit_def)
qed

subsection \<open>C3: a second pass changes nothing\<close>

text \<open>
  C3: \<open>sanitize\<close> is idempotent: \<open>sanitize(sanitize(x)) = sanitize(x)\<close> for every
  text \<open>x\<close>. The first pass keeps every comment block a comment block
  (\<open>segments_fix\<close>), and a block it rewrote has no bracket left, so the second pass
  finds the same blocks and leaves each as it is.
\<close>

theorem sanitize_idempotent:
  "fix_jsdoc_html (fix_jsdoc_html s) = fix_jsdoc_html s"
  by (rule fix_idem)

theorem sanitize_idempotent_witness:
  "fix_jsdoc_html (fix_jsdoc_html (lit ''a /** <b>x</b> 1 < 2 > 0 */ c'')) =
     fix_jsdoc_html (lit ''a /** <b>x</b> 1 < 2 > 0 */ c'')
   \<and> fix_jsdoc_html (lit ''a /** <b>x</b> 1 < 2 > 0 */ c'') =
     lit ''a /** [HTML example removed for Vite compatibility] 1 &lt; 2 &gt; 0 */ c''"
proof -
  have e: "fix_jsdoc_html (lit ''a /** <b>x</b> 1 < 2 > 0 */ c'') =
     lit ''a /** [HTML example removed for Vite compatibility] 1 &lt; 2 &gt; 0 */ c''"
    by (simp add: lit_def match_html_def tag_tail_def process_comment_def escape_def
        is_space_def placeholder_def)
  from sanitize_idempotent [of "lit ''a /** <b>x</b> 1 < 2 > 0 */ c''"] e show ?thesis
    by simp
qed

subsection \<open>C4: escaping is exhaustive\<close>

text \<open>
  C4: for the \<open>i\<close>-th located block of the input, when it contains \<^verbatim>\<open><\<close> and
  \<^verbatim>\<open>>\<close>: the output has as many blocks as the input, its \<open>i\<close>-th block is the
  input's after the span replacements (\<open>sub_html\<close>) with every remaining \<^verbatim>\<open><\<close>
  turned into \<^verbatim>\<open>&lt;\<close> and every remaining \<^verbatim>\<open>>\<close> into \<^verbatim>\<open>&gt;\<close>, and it contains
  neither bracket.
\<close>

theorem escaping_exhaustive:
  assumes "i < length (comments s)" "LT \<in> set (comments s ! i)" "GT \<in> set (comments s ! i)"
  shows "length (comments (fix_jsdoc_html s)) = length (comments s) \<and>
         comments (fix_jsdoc_html s) ! i = concat (map escaped_char (sub_html (comments s ! i))) \<and>
         LT \<notin> set (comments (fix_jsdoc_html s) ! i) \<and>
         GT \<notin> set (comments (fix_jsdoc_html s) ! i)"
proof -
  from assms(1) have e: "comments (fix_jsdoc_html s) ! i = process_comment (comments s ! i)"
    by (simp add: comments_fix)
  from assms(2,3) have p: "process_comment (comments s ! i) = escape (sub_html (comments s ! i))"
    by (simp add: process_comment_both)
  show ?thesis
    unfolding e p using escape_no_brackets [of "sub_html (comments s ! i)"]
    by (simp add: comments_fix escape_concat)
qed

theorem escaping_exhaustive_witness:
  "comments (lit ''x /** value < 5 and > 2 */ y'') = [lit ''/** value < 5 and > 2 */'']
   \<and> comments (fix_jsdoc_html (lit ''x /** value < 5 and > 2 */ y'')) = [lit ''/** value &lt; 5 and &gt; 2 */'']
   \<and> LT \<notin> set (comments (fix_jsdoc_html (lit ''x /** value < 5 and > 2 */ y'')) ! 0)
   \<and> GT \<notin> set (comments (fix_jsdoc_html (lit ''x /** value < 5 and > 2 */ y'')) ! 0)"
proof -
  have c: "comments (lit ''x /** value < 5 and > 2 */ y'') = [lit ''/** value < 5 and > 2 */'']"
    by (simp add: comments_def lit_def)
  have f: "fix_jsdoc_html (lit ''x /** value < 5 and > 2 */ y'') = lit ''x /** value &lt; 5 and &gt; 2 */ y''"
    by (simp add: lit_def match_html_def tag_tail_def process_comment_def escape_def is_space_def)
  have c': "comments (lit ''x /** value &lt; 5 and &gt; 2 */ y'') = [lit ''/** value &lt; 5 and &gt; 2 */'']"
    by (simp add: comments_def lit_def)
  have "0 < length (comments (lit ''x /** value < 5 and > 2 */ y''))"
    "LT \<in> set (comments (lit ''x /** value < 5 and > 2 */ y'') ! 0)"
    "GT \<in> set (comments (lit ''x /** value < 5 and > 2 */ y'') ! 0)"
    unfolding c by (simp_all add: lit_def)
  from escaping_exhaustive [OF this] have
    "LT \<notin> set (comments (fix_jsdoc_html (lit ''x /** value < 5 and > 2 */ y'')) ! 0)"
    "GT \<notin> set (comments (fix_jsdoc_html (lit ''x /** value < 5 and > 2 */ y'')) ! 0)"
    by blast+
  moreover have "comments (fix_jsdoc_html (lit ''x /** value < 5 and > 2 */ y'')) =
      [lit ''/** value &lt; 5 and &gt; 2 */'']"
    unfolding f c' ..
  ultimately show ?thesis using c by blast
qed

subsection \<open>C5: the text outside the comment blocks\<close>

text \<open>
  C5: only the inside of the comment blocks changes. The input is the sequence of
  its pieces; the output is the same sequence with every character outside a block
  kept and every block \<open>m\<close> replaced by \<open>process_comment m\<close>; scanning the output
  finds the same pieces; the text outside the blocks is the same in both; and a
  block keeps its \<^verbatim>\<open>/**\<close> and its \<^verbatim>\<open>*/\<close>.
\<close>

theorem outside_unchanged:
  "s = concat (map text_of (segments s)) \<and>
   fix_jsdoc_html s =
     concat (map (\<lambda>p. case p of Outside c \<Rightarrow> [c] | Comment m \<Rightarrow> process_comment m) (segments s)) \<and>
   segments (fix_jsdoc_html s) = map sanitize_piece (segments s) \<and>
   outside_of (segments (fix_jsdoc_html s)) = outside_of (segments s) \<and>
   (\<forall>m \<in> set (comments s). \<exists>b b'. m = lit ''/**'' @ b @ lit ''*/'' \<and>
        process_comment m = lit ''/**'' @ b' @ lit ''*/'')"
proof -
  have "(case p of Outside c \<Rightarrow> [c] | Comment m \<Rightarrow> process_comment m) = text_of (sanitize_piece p)" for p
    by (cases p) simp_all
  then have "map (\<lambda>p. case p of Outside c \<Rightarrow> [c] | Comment m \<Rightarrow> process_comment m) (segments s) =
      map text_of (map sanitize_piece (segments s))"
    by simp
  then have "fix_jsdoc_html s =
     concat (map (\<lambda>p. case p of Outside c \<Rightarrow> [c] | Comment m \<Rightarrow> process_comment m) (segments s))"
    using fix_segments [of s] by (simp only:)
  moreover have "\<forall>m \<in> set (comments s). \<exists>b b'. m = lit ''/**'' @ b @ lit ''*/'' \<and>
        process_comment m = lit ''/**'' @ b' @ lit ''*/''"
    unfolding lit_open lit_close using process_comment_delims by blast
  ultimately show ?thesis
    using concat_segments [of s] segments_fix [of s] outside_fix [of s] by simp
qed

theorem outside_unchanged_witness:
  "fix_jsdoc_html (lit ''a /** <b>x</b> */ c'') =
     lit ''a /** [HTML example removed for Vite compatibility] */ c''
   \<and> outside_of (segments (fix_jsdoc_html (lit ''a /** <b>x</b> */ c''))) = lit ''a  c''
   \<and> outside_of (segments (lit ''a /** <b>x</b> */ c'')) = lit ''a  c''"
proof -
  have f: "fix_jsdoc_html (lit ''a /** <b>x</b> */ c'') =
     lit ''a /** [HTML example removed for Vite compatibility] */ c''"
    by (simp add: lit_def match_html_def tag_tail_def process_comment_def escape_def
        is_space_def placeholder_def)
  have o: "outside_of (segments (lit ''a /** <b>x</b> */ c'')) = lit ''a  c''"
    by (simp add: lit_def)
  from outside_unchanged [of "lit ''a /** <b>x</b> */ c''"] have
    "outside_of (segments (fix_jsdoc_html (lit ''a /** <b>x</b> */ c''))) =
     outside_of (segments (lit ''a /** <b>x</b> */ c''))" by blast
  with f o show ?thesis by simp
qed

subsection \<open>C6: a text without a comment block\<close>

text \<open>
  C6: a text that contains no \<^verbatim>\<open>/** ... */\<close> block (no \<^verbatim>\<open>/**\<close> followed, after
  any text, by \<^verbatim>\<open>*/\<close>) is returned unchanged.
\<close>

theorem no_block_unchanged:
  assumes "\<not> (\<exists>p b q. s = p @ lit ''/**'' @ b @ lit ''*/'' @ q)"
  shows "fix_jsdoc_html s = s"
proof -
  from assms have "comments s = []" unfolding comments_Nil_iff lit_open lit_close .
  then show ?thesis by (rule comments_Nil_fix)
qed

theorem no_block_unchanged_witness:
  "\<not> (\<exists>p b q. lit ''/* a */ <b> /**/ x > y'' = p @ lit ''/**'' @ b @ lit ''*/'' @ q)
   \<and> fix_jsdoc_html (lit ''/* a */ <b> /**/ x > y'') = lit ''/* a */ <b> /**/ x > y''"
proof -
  have "comments (lit ''/* a */ <b> /**/ x > y'') = []"
    by (simp add: comments_def lit_def)
  then have n: "\<not> (\<exists>p b q. lit ''/* a */ <b> /**/ x > y'' = p @ lit ''/**'' @ b @ lit ''*/'' @ q)"
    unfolding comments_Nil_iff lit_open lit_close .
  from n no_block_unchanged [OF n] show ?thesis by (rule conjI)
qed

subsection \<open>C7: every file is tried, and the run ends normally\<close>




subsection \<open>C8: a file that cannot be read is not written\<close>

text \<open>
  C8: when reading a file raises, the file system is left as it was, the file is
  not opened for writing, and the only things done are the attempt to read and
  the call that prints the error line (whether or not that call succeeds).
\<close>

theorem read_failure_writes_nothing:
  assumes "read_text sys (files_on_disk w) f = Inl e"
  shows "files_on_disk (fst (process_file sys f w)) = files_on_disk w \<and>
         trace (fst (process_file sys f w)) = trace w @ [Opened_read f, Printed_error f e] \<and>
         written (trace (fst (process_file sys f w))) = written (trace w)"
proof -
  let ?w1 = "w\<lparr>trace := trace w @ [Opened_read f]\<rparr>"
  from assms have "process_file sys f w = print_call sys (Printed_error f e) ?w1"
    by (simp add: process_file_def try_body_def)
  with print_call_trace [of sys "Printed_error f e" ?w1] show ?thesis
    by (simp add: written_append)
qed

theorem read_failure_writes_nothing_witness:
  "read_text simple_os example_disk (lit ''theme-manager.js'') =
     Inl (FileNotFoundError (lit ''theme-manager.js''))
   \<and> files_on_disk (fst (process_file simple_os (lit ''theme-manager.js'') example_world)) =
       example_disk
   \<and> trace (fst (process_file simple_os (lit ''theme-manager.js'') example_world)) =
       [Opened_read (lit ''theme-manager.js''),
        Printed_error (lit ''theme-manager.js'') (FileNotFoundError (lit ''theme-manager.js''))]"
proof -
  have r: "read_text simple_os (files_on_disk example_world)
       (lit ''theme-manager.js'') = Inl (FileNotFoundError (lit ''theme-manager.js''))"
    by (simp add: simple_os_def example_world_def example_disk_def lit_def)
  have d: "files_on_disk example_world = example_disk" "trace example_world = []"
    by (simp_all add: example_world_def)
  from read_failure_writes_nothing [OF r] r show ?thesis unfolding d by simp
qed

subsection \<open>C9: unterminated and nested markers\<close>

text \<open>
  C9: (1) when no \<^verbatim>\<open>*/\<close> follows a \<^verbatim>\<open>/**\<close>, the pattern does not match at that
  marker, and the marker and all the text after it end the output unchanged,
  whatever precedes them; (2) a \<^verbatim>\<open>/**\<close> is closed by the first \<^verbatim>\<open>*/\<close> that follows
  it, whatever the text between them contains (further \<^verbatim>\<open>/**\<close> markers too);
  (3) every located block has this form.
\<close>

theorem unterminated_and_first_close:
  "(\<not> (\<exists>u v. rest = u @ lit ''*/'' @ v) \<longrightarrow>
      match_comment (lit ''/**'' @ rest) = None \<and>
      (\<exists>y. fix_jsdoc_html (pre @ lit ''/**'' @ rest) = y @ lit ''/**'' @ rest))
   \<and> (\<not> (\<exists>u v. body @ [STAR] = u @ lit ''*/'' @ v) \<longrightarrow>
      match_comment (lit ''/**'' @ body @ lit ''*/'' @ rest') =
        Some (lit ''/**'' @ body @ lit ''*/'', rest'))
   \<and> (\<forall>m \<in> set (comments s). \<exists>body. m = lit ''/**'' @ body @ lit ''*/'' \<and>
         \<not> (\<exists>u v. body @ [STAR] = u @ lit ''*/'' @ v))"
proof -
  have 1: "match_comment ([SLASH, STAR, STAR] @ rest) = None \<and>
      (\<exists>y. fix_jsdoc_html (pre @ [SLASH, STAR, STAR] @ rest) = y @ [SLASH, STAR, STAR] @ rest)"
    if "\<not> has_close rest"
  proof -
    from that have "find_close rest = None" by (simp add: find_close_None)
    then have "match_comment ([SLASH, STAR, STAR] @ rest) = None" by simp
    with unterminated_kept [OF that, of pre] show ?thesis by blast
  qed
  have 2: "match_comment ([SLASH, STAR, STAR] @ body @ [STAR, SLASH] @ rest') =
        Some ([SLASH, STAR, STAR] @ body @ [STAR, SLASH], rest')"
    if "\<not> has_close (body @ [STAR])"
    unfolding match_comment_form using that by auto
  from 1 2 comments_form [of _ s] show ?thesis
    unfolding lit_open lit_close has_close_iff [symmetric] by blast
qed

theorem unterminated_and_first_close_witness:
  "match_comment (lit ''/**'' @ lit '' <b>y</b> /** z'') = None
   \<and> fix_jsdoc_html (lit ''/** <a>x</a> */ '' @ lit ''/**'' @ lit '' <b>y</b> /** z'') =
       lit ''/** [HTML example removed for Vite compatibility] */ '' @ lit ''/**'' @ lit '' <b>y</b> /** z''
   \<and> match_comment (lit ''/**'' @ lit '' a /** b '' @ lit ''*/'' @ lit '' c */'') =
       Some (lit ''/**'' @ lit '' a /** b '' @ lit ''*/'', lit '' c */'')"
proof -
  have h1: "\<not> (\<exists>u v. lit '' <b>y</b> /** z'' = u @ lit ''*/'' @ v)"
    unfolding lit_close has_close_iff [symmetric] by (simp add: lit_def)
  have h2: "\<not> (\<exists>u v. lit '' a /** b '' @ [STAR] = u @ lit ''*/'' @ v)"
    unfolding lit_close has_close_iff [symmetric] by (simp add: lit_def)
  have f: "fix_jsdoc_html (lit ''/** <a>x</a> */ '' @ lit ''/**'' @ lit '' <b>y</b> /** z'') =
       lit ''/** [HTML example removed for Vite compatibility] */ '' @ lit ''/**'' @ lit '' <b>y</b> /** z''"
    by (simp add: lit_def match_html_def tag_tail_def process_comment_def escape_def
        is_space_def placeholder_def)
  from unterminated_and_first_close [of "lit '' <b>y</b> /** z''" "lit ''/** <a>x</a> */ ''"
      "lit '' a /** b ''" "lit '' c */''" "[]"] h1 h2 f
  show ?thesis by blast
qed

subsection \<open>C10: the comment blocks stay comment blocks\<close>

text \<open>
  C10: the located blocks of the output are the processed located blocks of the
  input, one for one and in order, so there are as many; each begins with \<^verbatim>\<open>/**\<close>
  and ends with \<^verbatim>\<open>*/\<close>.
\<close>

theorem blocks_preserved:
  "comments (fix_jsdoc_html s) = map process_comment (comments s) \<and>
   length (comments (fix_jsdoc_html s)) = length (comments s) \<and>
   (\<forall>b \<in> set (comments (fix_jsdoc_html s)). prefix (lit ''/**'') b \<and> suffix (lit ''*/'') b)"
proof -
  have "\<forall>b \<in> set (comments (fix_jsdoc_html s)). prefix (lit ''/**'') b \<and> suffix (lit ''*/'') b"
  proof
    fix b assume "b \<in> set (comments (fix_jsdoc_html s))"
    from comments_form [OF this] obtain body where
      "b = [SLASH, STAR, STAR] @ body @ [STAR, SLASH]" by blast
    then have "b = lit ''/**'' @ body @ lit ''*/''" "b = (lit ''/**'' @ body) @ lit ''*/''"
      by (simp_all add: lit_open lit_close)
    then show "prefix (lit ''/**'') b \<and> suffix (lit ''*/'') b"
      using prefixI suffixI by blast
  qed
  then show ?thesis by (simp add: comments_fix)
qed

theorem blocks_preserved_witness:
  "comments (lit ''a /** <b>x</b> */ c /** d */'') = [lit ''/** <b>x</b> */'', lit ''/** d */'']
   \<and> comments (fix_jsdoc_html (lit ''a /** <b>x</b> */ c /** d */'')) =
       [process_comment (lit ''/** <b>x</b> */''), process_comment (lit ''/** d */'')]
   \<and> length (comments (fix_jsdoc_html (lit ''a /** <b>x</b> */ c /** d */''))) = 2"
proof -
  have c: "comments (lit ''a /** <b>x</b> */ c /** d */'') = [lit ''/** <b>x</b> */'', lit ''/** d */'']"
    by (simp add: comments_def lit_def)
  from blocks_preserved [of "lit ''a /** <b>x</b> */ c /** d */''"] have
    "comments (fix_jsdoc_html (lit ''a /** <b>x</b> */ c /** d */'')) =
       map process_comment (comments (lit ''a /** <b>x</b> */ c /** d */''))"
    "length (comments (fix_jsdoc_html (lit ''a /** <b>x</b> */ c /** d */''))) =
       length (comments (lit ''a /** <b>x</b> */ c /** d */''))"
    by blast+
  then show ?thesis unfolding c by simp
qed

end
